theory Spec2Isabelle
  imports Main
begin

section \<open>Strings of code units\<close>

text \<open>
  A string of the source is the list of its code units. The model covers the code units
  U+0000 to U+00FF (one \<^typ>\<open>char\<close> each). In that range the characters that the
  expression class \<^verbatim>\<open>\s\<close> matches and that \<^verbatim>\<open>trim()\<close> removes are the same seven:
  TAB, LF, VT, FF, CR, SPACE and NO-BREAK SPACE.
\<close>

definition isSpace :: "char \<Rightarrow> bool" where
  "isSpace c \<longleftrightarrow>
     c = CHR 0x09 \<or> c = CHR 0x0A \<or> c = CHR 0x0B \<or> c = CHR 0x0C \<or> c = CHR 0x0D \<or>
     c = CHR 0x20 \<or> c = CHR 0xA0"

abbreviation nonSpace :: "char \<Rightarrow> bool" where
  "nonSpace c \<equiv> \<not> isSpace c"

abbreviation dquote :: char where
  "dquote \<equiv> CHR 0x22"

text \<open>\<^verbatim>\<open>String.prototype.trim\<close>: white space removed at both ends.\<close>

definition trim :: "string \<Rightarrow> string" where
  "trim s = rev (dropWhile isSpace (rev (dropWhile isSpace s)))"

text \<open>\<^verbatim>\<open>Array.prototype.join(sep)\<close>.\<close>

fun join :: "string \<Rightarrow> string list \<Rightarrow> string" where
  "join sep [] = []"
| "join sep [x] = x"
| "join sep (x # y # ys) = x @ sep @ join sep (y # ys)"

text \<open>\<^verbatim>\<open>String.prototype.includes\<close> with a one-unit needle.\<close>

definition str_includes :: "string \<Rightarrow> char \<Rightarrow> bool" where
  "str_includes s c \<longleftrightarrow> c \<in> set s"

section \<open>Regular expressions\<close>

text \<open>
  A regular expression is modelled by its match attempt at one position: given whether
  that position is the start of the input, and the input from that position on, it
  returns the length of the match there, or \<open>None\<close>. All expressions of
  \<^verbatim>\<open>filters.ts\<close> are greedy runs followed by nothing or by a single fixed unit, so the
  first alternative the engine finds is the longest run.
\<close>

type_synonym regex = "bool \<Rightarrow> string \<Rightarrow> nat option"

text \<open>\<^verbatim>\<open>/tok(\S+)/\<close> for a literal \<open>tok\<close>: the literal, then one or more non-space units.\<close>

definition re_operator :: "string \<Rightarrow> regex" where
  "re_operator tok atStart s =
     (let run = takeWhile nonSpace (drop (length tok) s)
      in if take (length tok) s = tok \<and> run \<noteq> [] then Some (length tok + length run)
         else None)"

text \<open>Capture group 1 of \<^verbatim>\<open>/tok(\S+)/\<close>: the match without the literal.\<close>

definition group1 :: "string \<Rightarrow> string \<Rightarrow> string" where
  "group1 tok m = drop (length tok) m"

text \<open>\<^verbatim>\<open>/"([^"]+)"/\<close>: a quote, one or more units other than a quote, a quote.\<close>

definition re_quoted :: regex where
  "re_quoted atStart s =
     (case s of
        [] \<Rightarrow> None
      | c # r \<Rightarrow>
          (let inner = takeWhile (\<lambda>x. x \<noteq> dquote) r
           in if c = dquote \<and> inner \<noteq> [] \<and> take 1 (drop (length inner) r) = [dquote]
              then Some (length inner + 2) else None))"

text \<open>
  \<^verbatim>\<open>/(?:^|\s)-(\S+)/\<close>: at the start of the input a dash and a non-space run; anywhere,
  one white-space unit, a dash and a non-space run.
\<close>

definition re_exclude :: regex where
  "re_exclude atStart s =
     (case s of
        [] \<Rightarrow> None
      | c # r \<Rightarrow>
          if atStart \<and> c = CHR ''-'' \<and> takeWhile nonSpace r \<noteq> []
          then Some (1 + length (takeWhile nonSpace r))
          else if isSpace c \<and> take 1 r = ''-'' \<and> takeWhile nonSpace (drop 1 r) \<noteq> []
          then Some (2 + length (takeWhile nonSpace (drop 1 r)))
          else None)"

text \<open>\<^verbatim>\<open>/\s+/\<close>.\<close>

definition re_spaces :: regex where
  "re_spaces atStart s =
     (if takeWhile isSpace s \<noteq> [] then Some (length (takeWhile isSpace s)) else None)"

text \<open>\<^verbatim>\<open>/"/\<close>.\<close>

definition re_dquote :: regex where
  "re_dquote atStart s = (if take 1 s = [dquote] then Some 1 else None)"

text \<open>\<^verbatim>\<open>/^-/\<close>.\<close>

definition re_leading_dash :: regex where
  "re_leading_dash atStart s = (if atStart \<and> take 1 s = ''-'' then Some 1 else None)"

subsection \<open>The string methods that take an expression\<close>

text \<open>
  \<^verbatim>\<open>str.match(re)\<close> without the \<^verbatim>\<open>g\<close> flag: the leftmost match, or null.
\<close>

fun match_from :: "regex \<Rightarrow> bool \<Rightarrow> string \<Rightarrow> string option" where
  "match_from re b [] = (case re b [] of None \<Rightarrow> None | Some n \<Rightarrow> Some [])"
| "match_from re b (c # cs) =
     (case re b (c # cs) of
        None \<Rightarrow> match_from re False cs
      | Some n \<Rightarrow> Some (take n (c # cs)))"

definition js_match :: "string \<Rightarrow> regex \<Rightarrow> string option" where
  "js_match s re = match_from re True s"

text \<open>
  \<^verbatim>\<open>str.match(re)\<close> with the \<^verbatim>\<open>g\<close> flag: every match from left to right, the search
  resuming where the last match ended (one unit further after an empty match); null
  when there is none.
\<close>

fun matches_from :: "regex \<Rightarrow> bool \<Rightarrow> string \<Rightarrow> string list" where
  "matches_from re b [] = (case re b [] of None \<Rightarrow> [] | Some n \<Rightarrow> [[]])"
| "matches_from re b (c # cs) =
     (case re b (c # cs) of
        None \<Rightarrow> matches_from re False cs
      | Some n \<Rightarrow> take n (c # cs) # matches_from re False (drop (n - 1) cs))"

definition js_match_g :: "string \<Rightarrow> regex \<Rightarrow> string list option" where
  "js_match_g s re = (case matches_from re True s of [] \<Rightarrow> None | ms \<Rightarrow> Some ms)"

text \<open>
  \<^verbatim>\<open>str.replace(re, rep)\<close> with the \<^verbatim>\<open>g\<close> flag, for a replacement text without
  \<^verbatim>\<open>$\<close> patterns.
\<close>

fun replace_from :: "regex \<Rightarrow> string \<Rightarrow> bool \<Rightarrow> string \<Rightarrow> string" where
  "replace_from re rep b [] = (case re b [] of None \<Rightarrow> [] | Some n \<Rightarrow> rep)"
| "replace_from re rep b (c # cs) =
     (case re b (c # cs) of
        None \<Rightarrow> c # replace_from re rep False cs
      | Some n \<Rightarrow>
          if n = 0 then rep @ c # replace_from re rep False cs
          else rep @ replace_from re rep False (drop (n - 1) cs))"

definition js_replace_g :: "string \<Rightarrow> regex \<Rightarrow> string \<Rightarrow> string" where
  "js_replace_g s re rep = replace_from re rep True s"

text \<open>\<^verbatim>\<open>str.replace(re, rep)\<close> without the \<^verbatim>\<open>g\<close> flag: the leftmost match only.\<close>

fun replace_first_from :: "regex \<Rightarrow> string \<Rightarrow> bool \<Rightarrow> string \<Rightarrow> string" where
  "replace_first_from re rep b [] = (case re b [] of None \<Rightarrow> [] | Some n \<Rightarrow> rep)"
| "replace_first_from re rep b (c # cs) =
     (case re b (c # cs) of
        None \<Rightarrow> c # replace_first_from re rep False cs
      | Some n \<Rightarrow> rep @ drop n (c # cs))"

definition js_replace :: "string \<Rightarrow> regex \<Rightarrow> string \<Rightarrow> string" where
  "js_replace s re rep = replace_first_from re rep True s"

text \<open>
  \<^verbatim>\<open>str.split(re)\<close>: the pieces between the matches; \<open>cur\<close> is the piece being read.
  A match that is empty and starts the piece is skipped, as the engine does.
\<close>

fun split_from :: "regex \<Rightarrow> string \<Rightarrow> bool \<Rightarrow> string \<Rightarrow> string list" where
  "split_from re cur b [] = [cur]"
| "split_from re cur b (c # cs) =
     (case re b (c # cs) of
        None \<Rightarrow> split_from re (cur @ [c]) False cs
      | Some n \<Rightarrow>
          if n = 0 then
            (if cur = [] then split_from re [c] False cs
             else cur # split_from re [c] False cs)
          else cur # split_from re [] False (drop (n - 1) cs))"

definition js_split :: "string \<Rightarrow> regex \<Rightarrow> string list" where
  "js_split s re =
     (if s = [] then (case re True [] of None \<Rightarrow> [[]] | Some n \<Rightarrow> [])
      else split_from re [] True s)"

section \<open>CSV escape\<close>

text \<open>The replacement text is two double quotes; the result is wrapped in two more.\<close>

definition csvEscape :: "string \<Rightarrow> string" where
  "csvEscape v =
     (if str_includes v CHR '','' \<or> str_includes v dquote \<or> str_includes v CHR 0x0A \<or> str_includes v CHR 0x0D
      then [dquote] @ js_replace_g v re_dquote [dquote, dquote] @ [dquote]
      else v)"

section \<open>The filter catalog\<close>

datatype filter_type = Date | Text

text \<open>
  \<^verbatim>\<open>TextFilterConfig\<close>, without the placeholder, description and info texts, which
  only the panel displays.
\<close>

record TextFilterConfig =
  cfg_id :: string
  cfg_label :: string
  cfg_type :: filter_type
  cfg_operator :: string

definition TEXT_FILTERS :: "TextFilterConfig list" where
  "TEXT_FILTERS =
     [\<lparr>cfg_id = ''after'', cfg_label = ''After'', cfg_type = Date, cfg_operator = ''after:''\<rparr>,
      \<lparr>cfg_id = ''before'', cfg_label = ''Before'', cfg_type = Date, cfg_operator = ''before:''\<rparr>,
      \<lparr>cfg_id = ''intitle'', cfg_label = ''In Title'', cfg_type = Text, cfg_operator = ''intitle:''\<rparr>,
      \<lparr>cfg_id = ''exact'', cfg_label = ''Exact Phrase'', cfg_type = Text, cfg_operator = [dquote]\<rparr>,
      \<lparr>cfg_id = ''exclude'', cfg_label = ''Exclude'', cfg_type = Text, cfg_operator = ''-''\<rparr>,
      \<lparr>cfg_id = ''channel'', cfg_label = ''Boost Channel'', cfg_type = Text, cfg_operator = ''channel:''\<rparr>,
      \<lparr>cfg_id = ''hashtag'', cfg_label = ''Hashtag'', cfg_type = Text, cfg_operator = ''#''\<rparr>]"

text \<open>
  \<^verbatim>\<open>ActiveTextFilter\<close>: the fields \<^verbatim>\<open>id\<close> and \<^verbatim>\<open>value\<close> of the source are
  \<open>filter_id\<close> and \<open>filter_value\<close> here.
\<close>

record ActiveTextFilter =
  filter_id :: string
  filter_value :: string

section \<open>Query string builder\<close>

text \<open>One turn of the loop of \<^verbatim>\<open>buildQueryString\<close>; \<open>parts\<close> is the array being filled.\<close>

definition buildQueryString_step :: "string list \<Rightarrow> ActiveTextFilter \<Rightarrow> string list" where
  "buildQueryString_step parts f =
     (case find (\<lambda>c. cfg_id c = filter_id f) TEXT_FILTERS of
        None \<Rightarrow> parts
      | Some config \<Rightarrow>
          if trim (filter_value f) = [] then parts
          else
            (let val = trim (filter_value f)
             in if cfg_id config = ''exact'' then parts @ [[dquote] @ val @ [dquote]]
                else if cfg_id config = ''exclude''
                then foldl (\<lambda>ps word. ps @ [''-'' @ word]) parts (js_split val re_spaces)
                else if cfg_id config = ''hashtag'' then parts @ [''#'' @ val]
                else parts @ [cfg_operator config @ val]))"

definition buildQueryString :: "ActiveTextFilter list \<Rightarrow> string" where
  "buildQueryString filters = join '' '' (foldl buildQueryString_step [] filters)"

section \<open>Query string parser\<close>

text \<open>
  \<open>filters\<close> is the array being filled, one expression after the other in the order of
  the source; a match that is null leaves it as it is.
\<close>

definition parseQueryFilters :: "string \<Rightarrow> ActiveTextFilter list" where
  "parseQueryFilters query =
     (let filters = [];
          filters =
            (case js_match query (re_operator ''after:'') of
               None \<Rightarrow> filters
             | Some afterMatch \<Rightarrow>
                 filters @ [\<lparr>filter_id = ''after'', filter_value = group1 ''after:'' afterMatch\<rparr>]);
          filters =
            (case js_match query (re_operator ''before:'') of
               None \<Rightarrow> filters
             | Some beforeMatch \<Rightarrow>
                 filters @ [\<lparr>filter_id = ''before'', filter_value = group1 ''before:'' beforeMatch\<rparr>]);
          filters =
            (case js_match query (re_operator ''intitle:'') of
               None \<Rightarrow> filters
             | Some intitleMatch \<Rightarrow>
                 filters @
                 [\<lparr>filter_id = ''intitle'', filter_value = group1 ''intitle:'' intitleMatch\<rparr>]);
          filters =
            (case js_match_g query re_quoted of
               None \<Rightarrow> filters
             | Some exactMatches \<Rightarrow>
                 foldl
                   (\<lambda>fs m. fs @ [\<lparr>filter_id = ''exact'', filter_value = js_replace_g m re_dquote []\<rparr>])
                   filters exactMatches);
          filters =
            (case js_match_g query re_exclude of
               None \<Rightarrow> filters
             | Some excludeMatches \<Rightarrow>
                 (let words = map (\<lambda>m. js_replace (trim m) re_leading_dash []) excludeMatches
                  in if length words \<noteq> 0
                     then filters @ [\<lparr>filter_id = ''exclude'', filter_value = join '' '' words\<rparr>]
                     else filters));
          filters =
            (case js_match query (re_operator ''channel:'') of
               None \<Rightarrow> filters
             | Some channelMatch \<Rightarrow>
                 filters @
                 [\<lparr>filter_id = ''channel'', filter_value = group1 ''channel:'' channelMatch\<rparr>]);
          filters =
            (case js_match query (re_operator ''#'') of
               None \<Rightarrow> filters
             | Some hashtagMatch \<Rightarrow>
                 filters @ [\<lparr>filter_id = ''hashtag'', filter_value = group1 ''#'' hashtagMatch\<rparr>])
      in filters)"

section \<open>Strip operators\<close>

text \<open>The chain of \<^verbatim>\<open>replace\<close> calls in the order of the source, then \<^verbatim>\<open>trim\<close>.\<close>

definition stripOperators :: "string \<Rightarrow> string" where
  "stripOperators query =
     (let q = js_replace_g query (re_operator ''after:'') [];
          q = js_replace_g q (re_operator ''before:'') [];
          q = js_replace_g q (re_operator ''intitle:'') [];
          q = js_replace_g q re_quoted [];
          q = js_replace_g q (re_operator ''channel:'') [];
          q = js_replace_g q (re_operator ''#'') [];
          q = js_replace_g q re_exclude [];
          q = js_replace_g q re_spaces '' ''
      in trim q)"

section \<open>Query preview builder\<close>

text \<open>
  \<^verbatim>\<open>PreviewLine\<close>: the connector is the empty text, \<open>AND\<close> or \<open>NOT\<close>; the field
  \<^verbatim>\<open>value\<close> of the source is \<open>line_value\<close> here. The options may be absent, and
  so may \<^verbatim>\<open>excludeShorts\<close> in them.
\<close>

record PreviewLine =
  connector :: string
  label :: string
  line_value :: string

record PreviewOptions =
  excludeShorts :: "bool option"

text \<open>
  One turn of the loop of \<^verbatim>\<open>buildPreviewLines\<close>; \<open>lines\<close> is the array being filled,
  and \<^verbatim>\<open>lines.length ? "AND" : ""\<close> reads it before the push.
\<close>

definition buildPreviewLines_step :: "PreviewLine list \<Rightarrow> ActiveTextFilter \<Rightarrow> PreviewLine list" where
  "buildPreviewLines_step lines f =
     (case find (\<lambda>c. cfg_id c = filter_id f) TEXT_FILTERS of
        None \<Rightarrow> lines
      | Some config \<Rightarrow>
          if trim (filter_value f) = [] then lines
          else
            (let val = trim (filter_value f);
                 conn = (if length lines \<noteq> 0 then ''AND'' else [])
             in if cfg_id config = ''exact''
                then lines @ [\<lparr>connector = conn, label = ''Exact'',
                               line_value = [dquote] @ val @ [dquote]\<rparr>]
                else if cfg_id config = ''exclude''
                then foldl
                       (\<lambda>ls word. ls @ [\<lparr>connector = ''NOT'', label = ''Exclude'', line_value = word\<rparr>])
                       lines (js_split val re_spaces)
                else if cfg_id config = ''after''
                then lines @ [\<lparr>connector = conn, label = ''After'', line_value = val\<rparr>]
                else if cfg_id config = ''before''
                then lines @ [\<lparr>connector = conn, label = ''Before'', line_value = val\<rparr>]
                else if cfg_id config = ''intitle''
                then lines @ [\<lparr>connector = conn, label = ''In Title'', line_value = val\<rparr>]
                else if cfg_id config = ''channel''
                then lines @ [\<lparr>connector = conn, label = ''Boost Channel'', line_value = val\<rparr>]
                else if cfg_id config = ''hashtag''
                then lines @ [\<lparr>connector = conn, label = ''Hashtag'', line_value = ''#'' @ val\<rparr>]
                else lines))"

definition buildPreviewLines ::
  "ActiveTextFilter list \<Rightarrow> PreviewOptions option \<Rightarrow> PreviewLine list" where
  "buildPreviewLines filters options =
     (let lines = foldl buildPreviewLines_step [] filters
      in if (case options of None \<Rightarrow> False | Some opts \<Rightarrow> excludeShorts opts = Some True)
         then lines @ [\<lparr>connector = ''NOT'', label = ''Shorts'', line_value = []\<rparr>]
         else lines)"

section \<open>Notions of the specification\<close>

subsection \<open>Entries and words\<close>

text \<open>The guard of the \<^verbatim>\<open>continue\<close> in both loops over the entries.\<close>

definition skipped :: "ActiveTextFilter \<Rightarrow> bool" where
  "skipped f \<longleftrightarrow>
     find (\<lambda>c. cfg_id c = filter_id f) TEXT_FILTERS = None \<or> trim (filter_value f) = []"

text \<open>
  An entry is inert when its id is not one of the seven of the catalog, or its value is
  empty or white space only.
\<close>

definition catalog_ids :: "string list" where
  "catalog_ids = [''after'', ''before'', ''intitle'', ''exact'', ''exclude'', ''channel'', ''hashtag'']"

definition inert :: "ActiveTextFilter \<Rightarrow> bool" where
  "inert f \<longleftrightarrow> filter_id f \<notin> set catalog_ids \<or> list_all isSpace (filter_value f)"

text \<open>
  The words of a string: its maximal runs of non-space units, from left to right;
  \<open>cur\<close> is the run being read.
\<close>

fun words_acc :: "string \<Rightarrow> string \<Rightarrow> string list" where
  "words_acc cur [] = (if cur = [] then [] else [cur])"
| "words_acc cur (c # cs) =
     (if isSpace c then (if cur = [] then words_acc [] cs else cur # words_acc [] cs)
      else words_acc (cur @ [c]) cs)"

definition ws_words :: "string \<Rightarrow> string list" where
  "ws_words s = words_acc [] s"

text \<open>A list of words: none is empty, none has a white-space unit.\<close>

definition proper :: "string list \<Rightarrow> bool" where
  "proper ts \<longleftrightarrow> (\<forall>t \<in> set ts. t \<noteq> [] \<and> (\<forall>x \<in> set t. nonSpace x))"

text \<open>A string that is not empty and neither starts nor ends with white space.\<close>

definition edge_clean :: "string \<Rightarrow> bool" where
  "edge_clean t \<longleftrightarrow> t \<noteq> [] \<and> nonSpace (hd t) \<and> nonSpace (last t)"

subsection \<open>What the builder emits for one entry\<close>

definition spec_tokens :: "ActiveTextFilter \<Rightarrow> string list" where
  "spec_tokens f =
     (let v = trim (filter_value f)
      in if inert f then []
         else if filter_id f = ''exact'' then [[dquote] @ v @ [dquote]]
         else if filter_id f = ''exclude'' then map (\<lambda>w. ''-'' @ w) (ws_words v)
         else if filter_id f = ''hashtag'' then [''#'' @ v]
         else if filter_id f = ''after'' then [''after:'' @ v]
         else if filter_id f = ''before'' then [''before:'' @ v]
         else if filter_id f = ''intitle'' then [''intitle:'' @ v]
         else [''channel:'' @ v])"

subsection \<open>What the preview shows for one entry\<close>

definition preview_label :: "string \<Rightarrow> string" where
  "preview_label i =
     (if i = ''after'' then ''After'' else if i = ''before'' then ''Before''
      else if i = ''intitle'' then ''In Title'' else if i = ''exact'' then ''Exact''
      else if i = ''channel'' then ''Boost Channel'' else ''Hashtag'')"

definition preview_value :: "string \<Rightarrow> string \<Rightarrow> string" where
  "preview_value i v =
     (if i = ''exact'' then [dquote] @ v @ [dquote] else if i = ''hashtag'' then ''#'' @ v else v)"

text \<open>
  The lines of one entry; \<open>first\<close> says that no line was emitted before it.
\<close>

definition spec_lines :: "bool \<Rightarrow> ActiveTextFilter \<Rightarrow> PreviewLine list" where
  "spec_lines first f =
     (let v = trim (filter_value f)
      in if inert f then []
         else if filter_id f = ''exclude''
         then map (\<lambda>w. \<lparr>connector = ''NOT'', label = ''Exclude'', line_value = w\<rparr>) (ws_words v)
         else [\<lparr>connector = (if first then [] else ''AND''), label = preview_label (filter_id f),
                line_value = preview_value (filter_id f) v\<rparr>])"

definition shorts_line :: PreviewLine where
  "shorts_line = \<lparr>connector = ''NOT'', label = ''Shorts'', line_value = []\<rparr>"

text \<open>The options are given and \<^verbatim>\<open>excludeShorts\<close> is true.\<close>

definition wants_shorts :: "PreviewOptions option \<Rightarrow> bool" where
  "wants_shorts options \<longleftrightarrow>
     (case options of None \<Rightarrow> False | Some opts \<Rightarrow> excludeShorts opts = Some True)"

subsection \<open>What the parser finds\<close>

text \<open>
  The operator token \<open>tok\<close> occurs at index \<open>k\<close> of \<open>s\<close>, immediately followed by a
  non-space unit; the non-space run that follows it there.
\<close>

definition occurs_at :: "string \<Rightarrow> string \<Rightarrow> nat \<Rightarrow> bool" where
  "occurs_at tok s k \<longleftrightarrow>
     take (length tok) (drop k s) = tok \<and>
     (case drop (k + length tok) s of [] \<Rightarrow> False | c # _ \<Rightarrow> nonSpace c)"

definition run_at :: "string \<Rightarrow> string \<Rightarrow> nat \<Rightarrow> string" where
  "run_at tok s k = takeWhile nonSpace (drop (k + length tok) s)"

text \<open>The run after the first such occurrence, if there is one.\<close>

definition first_value :: "string \<Rightarrow> string \<Rightarrow> string option" where
  "first_value tok s = map_option (run_at tok s) (find (occurs_at tok s) [0..<length s])"

text \<open>The token occurs nowhere in the string.\<close>

definition no_op :: "string \<Rightarrow> string \<Rightarrow> bool" where
  "no_op tok u \<longleftrightarrow> find (occurs_at tok u) [0..<length u] = None"

text \<open>The entries one operator contributes: none, or one.\<close>

fun entry :: "string \<Rightarrow> string option \<Rightarrow> ActiveTextFilter list" where
  "entry i None = []"
| "entry i (Some v) = [\<lparr>filter_id = i, filter_value = v\<rparr>]"

text \<open>
  The quoted spans of a string, read from left to right: the state is \<open>None\<close> outside
  quotes and \<open>Some acc\<close> after an opening quote, \<open>acc\<close> being the units read since.
  A quote that follows an opening quote at once closes nothing and opens again.
\<close>

abbreviation notQuote :: "char \<Rightarrow> bool" where
  "notQuote x \<equiv> x \<noteq> dquote"

fun quoted_scan :: "string option \<Rightarrow> string \<Rightarrow> string list" where
  "quoted_scan None [] = []"
| "quoted_scan None (c # cs) =
     (if c = dquote then quoted_scan (Some []) cs else quoted_scan None cs)"
| "quoted_scan (Some acc) [] = []"
| "quoted_scan (Some acc) (c # cs) =
     (if c = dquote then (if acc = [] then quoted_scan (Some []) cs else acc # quoted_scan None cs)
      else quoted_scan (Some (acc @ [c])) cs)"

definition quoted_spans :: "string \<Rightarrow> string list" where
  "quoted_spans s = quoted_scan None s"

text \<open>
  The words of the exclude rule: the white-space-delimited tokens that start with a dash
  and have something after it, without that dash.
\<close>

definition dash_token :: "string \<Rightarrow> bool" where
  "dash_token t \<longleftrightarrow> (case t of c # d # _ \<Rightarrow> c = CHR ''-'' | _ \<Rightarrow> False)"

definition dash_words :: "string \<Rightarrow> string list" where
  "dash_words s = map tl (filter dash_token (ws_words s))"

definition exclude_value :: "string \<Rightarrow> string option" where
  "exclude_value s = (if dash_words s = [] then None else Some (join '' '' (dash_words s)))"

text \<open>The arrow function that \<^verbatim>\<open>parseQueryFilters\<close> maps over the exclude matches.\<close>

definition word_of :: "string \<Rightarrow> string" where
  "word_of m = js_replace (trim m) re_leading_dash []"

text \<open>The position of an id in the scan order of the parser.\<close>

definition id_rank :: "string \<Rightarrow> nat" where
  "id_rank i =
     (if i = ''after'' then 0 else if i = ''before'' then 1 else if i = ''intitle'' then 2
      else if i = ''exact'' then 3 else if i = ''exclude'' then 4
      else if i = ''channel'' then 5 else 6)"

subsection \<open>What the stripper does to the words\<close>

text \<open>
  One operator pass of \<open>stripOperators\<close>; what it does to a list of words (a word keeps
  what stands before the first occurrence, and goes when nothing is left); and what the
  five operator passes and the exclude pass do to the words of an input without double
  quotes.
\<close>

definition remove_op :: "string \<Rightarrow> string \<Rightarrow> string" where
  "remove_op tok s = js_replace_g s (re_operator tok) []"

definition cut_tokens :: "string \<Rightarrow> string list \<Rightarrow> string list" where
  "cut_tokens tok ts = filter (\<lambda>t. t \<noteq> []) (map (remove_op tok) ts)"

definition strip_words :: "string list \<Rightarrow> string list" where
  "strip_words ts =
     filter (\<lambda>t. \<not> dash_token t)
       (cut_tokens ''#'' (cut_tokens ''channel:'' (cut_tokens ''intitle:''
         (cut_tokens ''before:'' (cut_tokens ''after:'' ts)))))"

text \<open>Words in which none of the tokens of \<open>S\<close> occurs.\<close>

definition cut_inv :: "string set \<Rightarrow> string list \<Rightarrow> bool" where
  "cut_inv S ts \<longleftrightarrow>
     (\<forall>t \<in> set ts. t \<noteq> [] \<and> (\<forall>x \<in> set t. nonSpace x) \<and> (\<forall>tok \<in> S. no_op tok t))"

text \<open>White space removed at the end; words with a space before each.\<close>

definition rtrim :: "string \<Rightarrow> string" where
  "rtrim s = rev (dropWhile isSpace (rev s))"

definition spaced :: "string list \<Rightarrow> string" where
  "spaced ws = concat (map ((#) CHR '' '') ws)"

text \<open>
  A string in which no operator rule finds anything: none of the five operator tokens
  occurs followed by a non-space unit, there is no quoted span, and no dash word.
\<close>

definition clean_query :: "string \<Rightarrow> bool" where
  "clean_query t \<longleftrightarrow>
     no_op ''after:'' t \<and> no_op ''before:'' t \<and> no_op ''intitle:'' t \<and>
     quoted_spans t = [] \<and> no_op ''channel:'' t \<and> no_op ''#'' t \<and> dash_words t = []"

section \<open>Properties\<close>

subsection \<open>CSV escape\<close>

lemma isSpace_simps [simp]:
  "isSpace (CHR '' '')" "\<not> isSpace (CHR ''-'')" "\<not> isSpace dquote" "\<not> isSpace (CHR ''#'')"
  by (simp_all add: isSpace_def)

lemma re_dquote_simps [simp]:
  "re_dquote b [] = None"
  "re_dquote b (c # cs) = (if c = dquote then Some 1 else None)"
  by (simp_all add: re_dquote_def)

lemma replace_dquote:
  "replace_from re_dquote rep b s = concat (map (\<lambda>c. if c = dquote then rep else [c]) s)"
  by (induction s arbitrary: b) simp_all

text \<open>
  Claim C9. \<open>csvEscape\<close> returns its input unchanged, the empty string included, when
  the input has no comma, double quote, line feed or carriage return; otherwise it returns
  the input with every double quote doubled, wrapped in double quotes.
\<close>

theorem csvEscape_spec:
  "csvEscape v =
     (if CHR '','' \<in> set v \<or> dquote \<in> set v \<or> CHR 0x0A \<in> set v \<or> CHR 0x0D \<in> set v
      then [dquote] @ concat (map (\<lambda>c. if c = dquote then [dquote, dquote] else [c]) v) @ [dquote]
      else v)"
  by (simp add: csvEscape_def str_includes_def js_replace_g_def replace_dquote)

theorem csvEscape_spec_witness:
  "csvEscape [] = [] \<and> csvEscape ''hello'' = ''hello'' \<and>
   csvEscape (''say '' @ [dquote] @ ''hi'' @ [dquote]) =
     [dquote] @ ''say '' @ [dquote, dquote] @ ''hi'' @ [dquote, dquote] @ [dquote]"
  using csvEscape_spec [of "[]"] csvEscape_spec [of "''hello''"]
    csvEscape_spec [of "''say '' @ [dquote] @ ''hi'' @ [dquote]"]
  by simp

subsection \<open>The catalog\<close>

lemma find_catalog:
  "find (\<lambda>c. cfg_id c = i) TEXT_FILTERS =
     (if i = ''after'' then Some \<lparr>cfg_id = ''after'', cfg_label = ''After'', cfg_type = Date, cfg_operator = ''after:''\<rparr>
      else if i = ''before'' then Some \<lparr>cfg_id = ''before'', cfg_label = ''Before'', cfg_type = Date, cfg_operator = ''before:''\<rparr>
      else if i = ''intitle'' then Some \<lparr>cfg_id = ''intitle'', cfg_label = ''In Title'', cfg_type = Text, cfg_operator = ''intitle:''\<rparr>
      else if i = ''exact'' then Some \<lparr>cfg_id = ''exact'', cfg_label = ''Exact Phrase'', cfg_type = Text, cfg_operator = [dquote]\<rparr>
      else if i = ''exclude'' then Some \<lparr>cfg_id = ''exclude'', cfg_label = ''Exclude'', cfg_type = Text, cfg_operator = ''-''\<rparr>
      else if i = ''channel'' then Some \<lparr>cfg_id = ''channel'', cfg_label = ''Boost Channel'', cfg_type = Text, cfg_operator = ''channel:''\<rparr>
      else if i = ''hashtag'' then Some \<lparr>cfg_id = ''hashtag'', cfg_label = ''Hashtag'', cfg_type = Text, cfg_operator = ''#''\<rparr>
      else None)"
  by (simp add: TEXT_FILTERS_def)

lemma find_catalog_None:
  "find (\<lambda>c. cfg_id c = i) TEXT_FILTERS = None \<longleftrightarrow> i \<notin> set catalog_ids"
  by (simp add: find_catalog catalog_ids_def)

subsection \<open>Splitting and trimming\<close>

lemma re_spaces_Nil [simp]: "re_spaces b [] = None"
  by (simp add: re_spaces_def)

lemma re_spaces_Cons [simp]:
  "re_spaces b (c # cs) = (if isSpace c then Some (Suc (length (takeWhile isSpace cs))) else None)"
  by (simp add: re_spaces_def)

lemma drop_length_takeWhile [simp]: "drop (length (takeWhile P xs)) xs = dropWhile P xs"
  by (induction xs) simp_all

lemma split_from_spaces_Cons:
  "split_from re_spaces cur b (c # cs) =
     (if isSpace c then cur # split_from re_spaces [] False (dropWhile isSpace cs)
      else split_from re_spaces (cur @ [c]) False cs)"
  by simp

lemma words_acc_dropWhile: "words_acc [] (dropWhile isSpace s) = words_acc [] s"
  by (induction s) simp_all

lemma split_from_words:
  "(cur \<noteq> [] \<or> (s \<noteq> [] \<and> nonSpace (hd s))) \<Longrightarrow> (s = [] \<or> nonSpace (last s)) \<Longrightarrow>
   split_from re_spaces cur b s = words_acc cur s"
proof (induction "length s" arbitrary: s cur b rule: less_induct)
  case less
  show ?case
  proof (cases s)
    case Nil
    with less.prems show ?thesis by simp
  next
    case (Cons c cs)
    show ?thesis
    proof (cases "isSpace c")
      case False
      have "split_from re_spaces (cur @ [c]) False cs = words_acc (cur @ [c]) cs"
        using less.prems Cons by (intro less.hyps) (auto split: if_splits)
      with False Cons show ?thesis by simp
    next
      case True
      with less.prems Cons have cur: "cur \<noteq> []" and cs: "cs \<noteq> []" "nonSpace (last cs)"
        by (auto split: if_splits)
      let ?r = "dropWhile isSpace cs"
      have r: "?r \<noteq> []" "nonSpace (hd ?r)" "nonSpace (last ?r)"
      proof -
        from cs have "last cs \<in> set cs" by simp
        with cs show "?r \<noteq> []" by (auto simp: dropWhile_eq_Nil_conv)
        then show "nonSpace (hd ?r)" by (rule hd_dropWhile)
        from \<open>?r \<noteq> []\<close> have "last ?r = last cs"
          by (metis last_appendR takeWhile_dropWhile_id)
        with cs show "nonSpace (last ?r)" by simp
      qed
      have "length ?r < length s" using Cons
        by (simp add: length_dropWhile_le le_imp_less_Suc)
      then have "split_from re_spaces [] False ?r = words_acc [] ?r"
        using r by (intro less.hyps) auto
      with True cur Cons show ?thesis
        by (simp add: split_from_spaces_Cons words_acc_dropWhile del: split_from.simps)
    qed
  qed
qed

lemma trim_Nil [simp]: "trim [] = []"
  by (simp add: trim_def)

lemma trim_ends:
  assumes "trim s \<noteq> []"
  shows "nonSpace (hd (trim s))" "nonSpace (last (trim s))"
proof -
  let ?d = "dropWhile isSpace s"
  let ?e = "dropWhile isSpace (rev ?d)"
  from assms have e: "?e \<noteq> []" by (simp add: trim_def)
  then have "nonSpace (hd ?e)" by (rule hd_dropWhile)
  with e show "nonSpace (last (trim s))" by (simp add: trim_def last_rev)
  have d: "?d \<noteq> []"
  proof
    assume "?d = []"
    then have "?e = []" by (simp only: rev.simps dropWhile.simps)
    with e show False by simp
  qed
  then have hd: "nonSpace (hd ?d)" by (rule hd_dropWhile)
  obtain k where k: "?e = drop k (rev ?d)"
    by (metis dropWhile_eq_drop)
  from e k have "k < length ?d" by auto
  then have "hd (rev ?e) = hd ?d" using k d
    by (simp add: rev_drop hd_take hd_conv_nth take_rev)
  with hd show "nonSpace (hd (trim s))" by (simp add: trim_def)
qed

lemma split_trim_words:
  "trim s \<noteq> [] \<Longrightarrow> js_split (trim s) re_spaces = ws_words (trim s)"
  using trim_ends [of s] by (simp add: js_split_def ws_words_def split_from_words)

lemma trim_eq_Nil: "trim s = [] \<longleftrightarrow> list_all isSpace s"
proof
  assume "list_all isSpace s"
  then have "dropWhile isSpace s = []" by (simp add: list_all_iff)
  then show "trim s = []" by (simp only: trim_def rev.simps dropWhile.simps)
next
  assume "trim s = []"
  then have "\<forall>c \<in> set (rev (dropWhile isSpace s)). isSpace c"
    by (simp add: trim_def dropWhile_eq_Nil_conv)
  then have "dropWhile isSpace s = []"
    by (metis dropWhile_eq_Nil_conv hd_dropWhile hd_in_set set_rev)
  then show "list_all isSpace s" by (simp add: list_all_iff dropWhile_eq_Nil_conv)
qed

subsection \<open>One entry at a time\<close>

lemma skipped_inert: "skipped f \<longleftrightarrow> inert f"
  by (simp add: skipped_def inert_def find_catalog_None trim_eq_Nil)

lemma foldl_push: "foldl (\<lambda>ps w. ps @ [g w]) parts ws = parts @ map g ws"
  by (induction ws arbitrary: parts) simp_all

lemma buildQueryString_step_eq: "buildQueryString_step parts f = parts @ spec_tokens f"
proof (cases "inert f")
  case True
  then show ?thesis
    using skipped_inert [of f]
    by (auto simp: buildQueryString_step_def spec_tokens_def skipped_def split: option.splits)
next
  case False
  then have ns: "trim (filter_value f) \<noteq> []" and cat: "filter_id f \<in> set catalog_ids"
    by (simp_all add: inert_def trim_eq_Nil)
  from cat show ?thesis
    using False ns
    by (auto simp: buildQueryString_step_def spec_tokens_def find_catalog catalog_ids_def
        foldl_push split_trim_words Let_def)
qed

lemma foldl_buildQueryString_step:
  "foldl buildQueryString_step parts fs = parts @ concat (map spec_tokens fs)"
  by (induction fs arbitrary: parts) (simp_all add: buildQueryString_step_eq)

lemma buildPreviewLines_step_eq:
  "buildPreviewLines_step lines f = lines @ spec_lines (lines = []) f"
proof (cases "inert f")
  case True
  then show ?thesis
    using skipped_inert [of f]
    by (auto simp: buildPreviewLines_step_def spec_lines_def skipped_def split: option.splits)
next
  case False
  then have ns: "trim (filter_value f) \<noteq> []" and cat: "filter_id f \<in> set catalog_ids"
    by (simp_all add: inert_def trim_eq_Nil)
  from cat show ?thesis
    using False ns
    by (auto simp: buildPreviewLines_step_def spec_lines_def find_catalog catalog_ids_def
        foldl_push split_trim_words Let_def preview_label_def preview_value_def)
qed

subsection \<open>The built string\<close>

lemma words_acc_props:
  "\<forall>c \<in> set cur. nonSpace c \<Longrightarrow>
   \<forall>w \<in> set (words_acc cur s). w \<noteq> [] \<and> (\<forall>c \<in> set w. nonSpace c)"
proof (induction s arbitrary: cur)
  case Nil
  then show ?case by simp
next
  case (Cons a s)
  have 1: "\<forall>w \<in> set (words_acc [] s). w \<noteq> [] \<and> (\<forall>c \<in> set w. nonSpace c)"
    by (rule Cons.IH) simp
  have 2: "nonSpace a \<Longrightarrow>
    \<forall>w \<in> set (words_acc (cur @ [a]) s). w \<noteq> [] \<and> (\<forall>c \<in> set w. nonSpace c)"
    using Cons.prems by (intro Cons.IH) simp
  from 1 2 Cons.prems show ?case by simp
qed

lemma ws_words_props: "w \<in> set (ws_words s) \<Longrightarrow> w \<noteq> [] \<and> (\<forall>c \<in> set w. nonSpace c)"
  using words_acc_props [of "[]" s] by (simp add: ws_words_def)

lemma nonSpace_letters [simp]:
  "nonSpace (CHR ''a'')" "nonSpace (CHR ''b'')" "nonSpace (CHR ''c'')" "nonSpace (CHR ''i'')"
  "nonSpace (CHR '':'')"
  by (simp_all add: isSpace_def)

lemma words_acc_eq_Nil: "words_acc cur s = [] \<longleftrightarrow> cur = [] \<and> list_all isSpace s"
  by (induction s arbitrary: cur) auto

lemma ws_words_eq_Nil: "ws_words s = [] \<longleftrightarrow> list_all isSpace s"
  by (simp add: ws_words_def words_acc_eq_Nil)

lemma join_ends:
  "ts \<noteq> [] \<Longrightarrow> \<forall>t \<in> set ts. t \<noteq> [] \<Longrightarrow>
   join sep ts \<noteq> [] \<and> hd (join sep ts) = hd (hd ts) \<and> last (join sep ts) = last (last ts)"
  by (induction sep ts rule: join.induct) auto

lemma spec_tokens_clean: "t \<in> set (spec_tokens f) \<Longrightarrow> edge_clean t"
proof -
  assume t: "t \<in> set (spec_tokens f)"
  then have ni: "\<not> inert f" by (auto simp: spec_tokens_def)
  then have ns: "trim (filter_value f) \<noteq> []" by (simp add: inert_def trim_eq_Nil)
  note e = trim_ends [OF ns]
  from ni have "filter_id f \<in> set catalog_ids" by (simp add: inert_def)
  then consider "filter_id f = ''exclude''" | "filter_id f \<noteq> ''exclude''" by blast
  then show ?thesis
  proof cases
    case 1
    with t ni obtain w where "w \<in> set (ws_words (trim (filter_value f)))" "t = CHR ''-'' # w"
      by (auto simp: spec_tokens_def)
    with ws_words_props [of w] show ?thesis by (auto simp: edge_clean_def)
  next
    case 2
    with t ni ns e show ?thesis
      by (auto simp: spec_tokens_def edge_clean_def Let_def split: if_splits)
  qed
qed

lemma join_clean:
  assumes "\<forall>t \<in> set ts. edge_clean t" "ts \<noteq> []"
  shows "edge_clean (join sep ts)"
proof -
  from assms have ne: "\<forall>t \<in> set ts. t \<noteq> []" by (simp add: edge_clean_def)
  from assms have "edge_clean (hd ts)" "edge_clean (last ts)" by simp_all
  with join_ends [OF assms(2) ne, of sep] show ?thesis by (simp add: edge_clean_def)
qed

lemma join_eq_Nil: "\<forall>t \<in> set ts. t \<noteq> [] \<Longrightarrow> join sep ts = [] \<longleftrightarrow> ts = []"
  using join_ends [of ts sep] by (cases ts) auto

text \<open>
  Claim C4. \<open>buildQueryString\<close> renders the entries in input order, each as
  \<open>spec_tokens\<close> says (nothing for an unknown id or a white-space-only value, the
  quoted trimmed value for exact, one dash token per word for exclude, the hash and the
  trimmed value for hashtag, the operator token and the trimmed value for the others),
  and joins the tokens with single spaces; the empty list gives the empty string, and
  the result neither starts nor ends with white space.
\<close>

theorem buildQueryString_spec:
  "buildQueryString fs = join '' '' (concat (map spec_tokens fs)) \<and>
   buildQueryString [] = [] \<and>
   (buildQueryString fs \<noteq> [] \<longrightarrow>
      nonSpace (hd (buildQueryString fs)) \<and> nonSpace (last (buildQueryString fs)))"
proof -
  let ?ts = "concat (map spec_tokens fs)"
  have eq: "buildQueryString fs = join '' '' ?ts"
    by (simp add: buildQueryString_def foldl_buildQueryString_step)
  have clean: "\<forall>t \<in> set ?ts. edge_clean t"
    by (auto dest: spec_tokens_clean)
  have "join '' '' ?ts \<noteq> [] \<longrightarrow> edge_clean (join '' '' ?ts)"
  proof (cases "?ts = []")
    case True
    then show ?thesis by (metis join.simps(1))
  next
    case False
    with join_clean [OF clean] show ?thesis by blast
  qed
  with eq show ?thesis
    by (simp add: edge_clean_def buildQueryString_def)
qed

theorem buildQueryString_spec_witness:
  "buildQueryString
     [\<lparr>filter_id = ''after'', filter_value = '' 2024-06-15 ''\<rparr>,
      \<lparr>filter_id = ''nope'', filter_value = ''x''\<rparr>,
      \<lparr>filter_id = ''exclude'', filter_value = ''tutorial  beginner''\<rparr>,
      \<lparr>filter_id = ''exact'', filter_value = ''   ''\<rparr>] = ''after:2024-06-15 -tutorial -beginner'' \<and>
   nonSpace (hd (buildQueryString
     [\<lparr>filter_id = ''after'', filter_value = '' 2024-06-15 ''\<rparr>,
      \<lparr>filter_id = ''nope'', filter_value = ''x''\<rparr>,
      \<lparr>filter_id = ''exclude'', filter_value = ''tutorial  beginner''\<rparr>,
      \<lparr>filter_id = ''exact'', filter_value = ''   ''\<rparr>])) \<and>
   nonSpace (last (buildQueryString
     [\<lparr>filter_id = ''after'', filter_value = '' 2024-06-15 ''\<rparr>,
      \<lparr>filter_id = ''nope'', filter_value = ''x''\<rparr>,
      \<lparr>filter_id = ''exclude'', filter_value = ''tutorial  beginner''\<rparr>,
      \<lparr>filter_id = ''exact'', filter_value = ''   ''\<rparr>]))"
  (is "buildQueryString ?fs = ?r \<and> _")
proof -
  have t: "join '' '' (concat (map spec_tokens ?fs)) = ?r" by code_simp
  from buildQueryString_spec [of ?fs] have e: "buildQueryString ?fs = ?r" unfolding t by simp
  then have "buildQueryString ?fs \<noteq> []" by simp
  with buildQueryString_spec [of ?fs] e show ?thesis by blast
qed

subsection \<open>The preview lines\<close>

lemma preview_Nil: "buildPreviewLines [] None = []"
  by (simp add: buildPreviewLines_def)

lemma preview_snoc:
  "buildPreviewLines (fs @ [f]) None =
     buildPreviewLines fs None @ spec_lines (buildPreviewLines fs None = []) f"
  by (simp add: buildPreviewLines_def buildPreviewLines_step_eq)

lemma preview_options:
  "buildPreviewLines fs options =
     buildPreviewLines fs None @ (if wants_shorts options then [shorts_line] else [])"
  by (cases options) (auto simp: buildPreviewLines_def wants_shorts_def shorts_line_def)

lemma spec_lines_connector:
  "l \<in> set (spec_lines first f) \<Longrightarrow>
   connector l = (if filter_id f = ''exclude'' then ''NOT'' else if first then [] else ''AND'')"
  by (auto simp: spec_lines_def Let_def split: if_splits)

lemma trim_all_space: "list_all isSpace (trim s) \<longleftrightarrow> list_all isSpace s"
proof (cases "trim s = []")
  case True
  then show ?thesis by (simp add: trim_eq_Nil [symmetric])
next
  case False
  from trim_ends(1) [OF False] False have "\<not> list_all isSpace (trim s)"
    by (cases "trim s") auto
  with False show ?thesis by (simp add: trim_eq_Nil)
qed

lemma spec_lines_eq_Nil: "spec_lines first f = [] \<longleftrightarrow> inert f"
  by (auto simp: spec_lines_def Let_def ws_words_eq_Nil inert_def trim_all_space)

lemma preview_lines_eq_Nil: "buildPreviewLines fs None = [] \<longleftrightarrow> list_all inert fs"
  by (induction fs rule: rev_induct) (simp_all add: preview_Nil preview_snoc spec_lines_eq_Nil)

text \<open>
  Claim C7. For every value of the options, the lines of \<open>buildPreviewLines\<close> for a
  list extended by one entry are the lines of the list followed by the lines of that
  entry and then by the Shorts line when \<open>excludeShorts\<close> is true; for the empty list
  they are the Shorts line alone, or nothing. An entry gives no line when it is inert,
  one line per word for exclude, one line otherwise. Every line of an exclude entry has
  connector NOT, also when it is the first line; a line of another entry has the empty
  connector when no line was emitted before it, and AND otherwise.
\<close>

theorem buildPreviewLines_connectors:
  "buildPreviewLines [] options = (if wants_shorts options then [shorts_line] else []) \<and>
   buildPreviewLines (fs @ [f]) options =
     buildPreviewLines fs None @ spec_lines (buildPreviewLines fs None = []) f @
     (if wants_shorts options then [shorts_line] else []) \<and>
   (\<forall>l \<in> set (spec_lines first f).
      connector l = (if filter_id f = ''exclude'' then ''NOT'' else if first then [] else ''AND''))"
  using preview_options [of "[]" options] preview_options [of "fs @ [f]" options]
  by (simp add: preview_Nil preview_snoc spec_lines_connector)

theorem buildPreviewLines_connectors_witness:
  "buildPreviewLines
     ([\<lparr>filter_id = ''exclude'', filter_value = ''a b''\<rparr>, \<lparr>filter_id = ''after'', filter_value = ''''\<rparr>] @
      [\<lparr>filter_id = ''exact'', filter_value = ''c d''\<rparr>]) (Some \<lparr>excludeShorts = Some True\<rparr>) =
   [\<lparr>connector = ''NOT'', label = ''Exclude'', line_value = ''a''\<rparr>,
    \<lparr>connector = ''NOT'', label = ''Exclude'', line_value = ''b''\<rparr>,
    \<lparr>connector = ''AND'', label = ''Exact'', line_value = [dquote] @ ''c d'' @ [dquote]\<rparr>,
    \<lparr>connector = ''NOT'', label = ''Shorts'', line_value = []\<rparr>] \<and>
   buildPreviewLines ([] @ [\<lparr>filter_id = ''hashtag'', filter_value = '' x ''\<rparr>])
     (Some \<lparr>excludeShorts = Some False\<rparr>) =
   [\<lparr>connector = [], label = ''Hashtag'', line_value = ''#x''\<rparr>] \<and>
   buildPreviewLines [] (Some \<lparr>excludeShorts = Some True\<rparr>) =
   [\<lparr>connector = ''NOT'', label = ''Shorts'', line_value = []\<rparr>] \<and>
   list_all (\<lambda>l. connector l = ''NOT'')
     (spec_lines True \<lparr>filter_id = ''exclude'', filter_value = ''a b''\<rparr>) \<and>
   length (spec_lines True \<lparr>filter_id = ''exclude'', filter_value = ''a b''\<rparr>) = 2"
proof -
  let ?e = "\<lparr>filter_id = ''exclude'', filter_value = ''a b''\<rparr>"
  let ?a = "\<lparr>filter_id = ''after'', filter_value = ''''\<rparr>"
  let ?x = "\<lparr>filter_id = ''exact'', filter_value = ''c d''\<rparr>"
  let ?h = "\<lparr>filter_id = ''hashtag'', filter_value = '' x ''\<rparr>"
  let ?T = "Some \<lparr>excludeShorts = Some True\<rparr>"
  let ?F = "Some \<lparr>excludeShorts = Some False\<rparr>"
  have n: "length (spec_lines True ?e) = 2" by code_simp
  have c: "list_all (\<lambda>l. connector l = ''NOT'') (spec_lines True ?e)"
    using buildPreviewLines_connectors [THEN conjunct2, THEN conjunct2, of True ?e]
    by (simp add: list_all_iff)
  have w: "wants_shorts ?T" "\<not> wants_shorts ?F" "\<not> wants_shorts None"
    by (simp_all add: wants_shorts_def)
  have 0: "buildPreviewLines [] None = []"
    using buildPreviewLines_connectors [THEN conjunct1, of None] w by simp
  have s: "buildPreviewLines [] ?T = [\<lparr>connector = ''NOT'', label = ''Shorts'', line_value = []\<rparr>]"
    using buildPreviewLines_connectors [THEN conjunct1, of ?T] w by (simp add: shorts_line_def)
  have sl: "spec_lines True ?e =
      [\<lparr>connector = ''NOT'', label = ''Exclude'', line_value = ''a''\<rparr>,
       \<lparr>connector = ''NOT'', label = ''Exclude'', line_value = ''b''\<rparr>]"
    "spec_lines False ?a = []"
    "spec_lines False ?x =
      [\<lparr>connector = ''AND'', label = ''Exact'', line_value = [dquote] @ ''c d'' @ [dquote]\<rparr>]"
    "spec_lines True ?h = [\<lparr>connector = [], label = ''Hashtag'', line_value = ''#x''\<rparr>]"
    by code_simp+
  have 1: "buildPreviewLines [?e] None = spec_lines True ?e"
    using buildPreviewLines_connectors [THEN conjunct2, THEN conjunct1, of "[]" ?e None] 0 w by simp
  have 2: "buildPreviewLines [?e, ?a] None = spec_lines True ?e"
    using buildPreviewLines_connectors [THEN conjunct2, THEN conjunct1, of "[?e]" ?a None] 1 w sl by simp
  have 3: "buildPreviewLines ([?e, ?a] @ [?x]) ?T =
      spec_lines True ?e @ spec_lines False ?x @ [shorts_line]"
    using buildPreviewLines_connectors [THEN conjunct2, THEN conjunct1, of "[?e, ?a]" ?x ?T] 2 w sl by simp
  have 4: "buildPreviewLines ([] @ [?h]) ?F = spec_lines True ?h"
    using buildPreviewLines_connectors [THEN conjunct2, THEN conjunct1, of "[]" ?h ?F] 0 w by simp
  from 3 4 s c n show ?thesis unfolding sl shorts_line_def by simp
qed

text \<open>
  Claim C8, amended. \<open>buildPreviewLines\<close> returns no line exactly when every entry
  of the input is inert (unknown id, or empty or white-space-only value) and
  \<open>excludeShorts\<close> is not true; when \<open>excludeShorts\<close> is true, exactly the Shorts
  line is appended to the lines of the entries.
\<close>

theorem buildPreviewLines_empty_iff:
  "(buildPreviewLines fs options = [] \<longleftrightarrow> list_all inert fs \<and> \<not> wants_shorts options) \<and>
   buildPreviewLines fs options =
     buildPreviewLines fs None @ (if wants_shorts options then [shorts_line] else [])"
  using preview_options [of fs options] by (simp add: preview_lines_eq_Nil)

theorem buildPreviewLines_empty_iff_witness:
  "buildPreviewLines [] (Some \<lparr>excludeShorts = Some True\<rparr>) = [shorts_line] \<and>
   buildPreviewLines [\<lparr>filter_id = ''channel'', filter_value = ''x''\<rparr>] (Some \<lparr>excludeShorts = None\<rparr>) \<noteq> [] \<and>
   buildPreviewLines [\<lparr>filter_id = ''after'', filter_value = '' ''\<rparr>] None = []"
proof -
  have 1: "buildPreviewLines [] (Some \<lparr>excludeShorts = Some True\<rparr>) = [shorts_line]"
    using buildPreviewLines_empty_iff [THEN conjunct2, of "[]" "Some \<lparr>excludeShorts = Some True\<rparr>"]
    by (simp add: wants_shorts_def preview_Nil)
  have 2: "buildPreviewLines [\<lparr>filter_id = ''channel'', filter_value = ''x''\<rparr>]
      (Some \<lparr>excludeShorts = None\<rparr>) \<noteq> []"
    using buildPreviewLines_empty_iff [THEN conjunct1,
        of "[\<lparr>filter_id = ''channel'', filter_value = ''x''\<rparr>]" "Some \<lparr>excludeShorts = None\<rparr>"]
    by (simp add: inert_def catalog_ids_def isSpace_def)
  have 3: "buildPreviewLines [\<lparr>filter_id = ''after'', filter_value = '' ''\<rparr>] None = []"
    using buildPreviewLines_empty_iff [THEN conjunct1,
        of "[\<lparr>filter_id = ''after'', filter_value = '' ''\<rparr>]" None]
    by (simp add: wants_shorts_def inert_def)
  from 1 2 3 show ?thesis by blast
qed

text \<open>
  The claim as stated fails: a non-empty input whose only entry has an empty value gives
  no line.
\<close>

theorem buildPreviewLines_empty_counterexample:
  "[\<lparr>filter_id = ''after'', filter_value = ''''\<rparr>] \<noteq> [] \<and>
   buildPreviewLines [\<lparr>filter_id = ''after'', filter_value = ''''\<rparr>] None = []"
  by (simp add: buildPreviewLines_def buildPreviewLines_step_def find_catalog)

subsection \<open>Operator tokens\<close>

lemma take_length_takeWhile [simp]: "take (length (takeWhile P xs)) xs = takeWhile P xs"
  by (induction xs) simp_all

lemma run_at_0_Nil: "run_at tok s 0 \<noteq> [] \<longleftrightarrow> (case drop (length tok) s of [] \<Rightarrow> False | c # _ \<Rightarrow> nonSpace c)"
  by (simp add: run_at_def split: list.splits)

lemma re_operator_Some:
  "occurs_at tok s 0 \<Longrightarrow> re_operator tok b s = Some (length tok + length (run_at tok s 0))"
  using run_at_0_Nil [of tok s]
  by (auto simp: re_operator_def occurs_at_def run_at_def Let_def)

lemma re_operator_None: "\<not> occurs_at tok s 0 \<Longrightarrow> re_operator tok b s = None"
  using run_at_0_Nil [of tok s]
  by (auto simp: re_operator_def occurs_at_def run_at_def Let_def)

lemma occurs_take:
  assumes "occurs_at tok s 0"
  shows "take (length tok + length (run_at tok s 0)) s = tok @ run_at tok s 0"
proof -
  from assms have t: "take (length tok) s = tok" by (simp add: occurs_at_def)
  have "take (length tok + length (run_at tok s 0)) s =
      take (length tok) s @ take (length (run_at tok s 0)) (drop (length tok) s)"
    by (simp add: take_add)
  with t show ?thesis by (simp add: run_at_def)
qed

lemma occurs_at_Suc [simp]: "occurs_at tok (c # cs) (Suc k) = occurs_at tok cs k"
  by (simp add: occurs_at_def)

lemma run_at_Suc [simp]: "run_at tok (c # cs) (Suc k) = run_at tok cs k"
  by (simp add: run_at_def)

lemma find_map_list: "find P (map f xs) = map_option f (find (\<lambda>x. P (f x)) xs)"
  by (induction xs) simp_all

lemma find_upt_Suc:
  "find P [0..<Suc n] = (if P 0 then Some 0 else map_option Suc (find (\<lambda>k. P (Suc k)) [0..<n]))"
proof -
  have "[0..<Suc n] = 0 # map Suc [0..<n]"
    by (simp add: upt_conv_Cons map_Suc_upt del: upt_Suc)
  then show ?thesis by (simp add: find_map_list del: upt_Suc)
qed

lemma match_from_operator:
  "match_from (re_operator tok) b s =
     map_option (\<lambda>k. tok @ run_at tok s k) (find (occurs_at tok s) [0..<length s])"
proof (induction s arbitrary: b)
  case Nil
  have "\<not> occurs_at tok [] 0" by (simp add: occurs_at_def)
  then show ?case by (simp add: re_operator_None)
next
  case (Cons c cs)
  show ?case
  proof (cases "occurs_at tok (c # cs) 0")
    case True
    with occurs_take [OF True] show ?thesis
      by (simp add: re_operator_Some find_upt_Suc del: upt_Suc)
  next
    case False
    then show ?thesis
      by (simp add: re_operator_None find_upt_Suc Cons.IH option.map_comp comp_def del: upt_Suc)
  qed
qed

lemma operator_entry:
  "(case js_match q (re_operator tok) of
      None \<Rightarrow> fs
    | Some m \<Rightarrow> fs @ [\<lparr>filter_id = i, filter_value = group1 tok m\<rparr>]) =
   fs @ entry i (first_value tok q)"
  by (cases "find (occurs_at tok q) [0..<length q]")
    (simp_all add: js_match_def match_from_operator first_value_def group1_def)

subsection \<open>Tokens\<close>

lemma token_induct [case_names Nil Space Token]:
  assumes "P []"
    and "\<And>c s. isSpace c \<Longrightarrow> P s \<Longrightarrow> P (c # s)"
    and "\<And>t r. t \<noteq> [] \<Longrightarrow> \<forall>x \<in> set t. nonSpace x \<Longrightarrow> r = [] \<or> isSpace (hd r) \<Longrightarrow> P r \<Longrightarrow> P (t @ r)"
  shows "P s"
proof (induction "length s" arbitrary: s rule: less_induct)
  case less
  show ?case
  proof (cases s)
    case Nil
    with assms(1) show ?thesis by simp
  next
    case (Cons c cs)
    show ?thesis
    proof (cases "isSpace c")
      case True
      with Cons less assms(2) show ?thesis by simp
    next
      case False
      let ?t = "takeWhile nonSpace s" and ?r = "dropWhile nonSpace s"
      from False Cons have t: "?t \<noteq> []" by simp
      have nt: "\<forall>x \<in> set ?t. nonSpace x" by (auto dest: set_takeWhileD)
      have r: "?r = [] \<or> isSpace (hd ?r)" using hd_dropWhile [of nonSpace s] by auto
      have "length ?r < length s"
        using t by (metis append_eq_conv_conj length_append length_greater_0_conv
            less_add_same_cancel2 takeWhile_dropWhile_id)
      then have "P ?r" by (rule less)
      from assms(3) [OF t nt r this] show ?thesis by simp
    qed
  qed
qed

lemma words_acc_run: "\<forall>x \<in> set t. nonSpace x \<Longrightarrow> words_acc cur (t @ r) = words_acc (cur @ t) r"
  by (induction t arbitrary: cur) simp_all

lemma words_acc_boundary:
  "cur \<noteq> [] \<Longrightarrow> r = [] \<or> isSpace (hd r) \<Longrightarrow> words_acc cur r = cur # words_acc [] r"
  by (cases r) auto

lemma ws_words_Nil [simp]: "ws_words [] = []"
  by (simp add: ws_words_def)

lemma ws_words_space [simp]: "isSpace c \<Longrightarrow> ws_words (c # s) = ws_words s"
  by (simp add: ws_words_def)

lemma ws_words_token:
  "t \<noteq> [] \<Longrightarrow> \<forall>x \<in> set t. nonSpace x \<Longrightarrow> r = [] \<or> isSpace (hd r) \<Longrightarrow>
   ws_words (t @ r) = t # ws_words r"
  using words_acc_run [of t "[]" r] words_acc_boundary [of t r]
  by (simp add: ws_words_def)

subsection \<open>The exclude expression\<close>

lemma trim_id: "t \<noteq> [] \<Longrightarrow> nonSpace (hd t) \<Longrightarrow> nonSpace (last t) \<Longrightarrow> trim t = t"
proof -
  assume t: "t \<noteq> []" "nonSpace (hd t)" "nonSpace (last t)"
  then have "dropWhile isSpace t = t" by (cases t) auto
  moreover from t have "dropWhile isSpace (rev t) = rev t"
    by (cases "rev t") (auto simp: last_rev [symmetric] simp del: last_rev)
  ultimately show ?thesis by (simp add: trim_def)
qed

lemma trim_space_Cons: "isSpace c \<Longrightarrow> trim (c # s) = trim s"
  by (simp add: trim_def)

lemma word_of_dash:
  assumes "run \<noteq> []" "\<forall>x \<in> set run. nonSpace x"
  shows "word_of (CHR ''-'' # run) = run"
proof -
  from assms have "nonSpace (last (CHR ''-'' # run))" by simp
  then have "trim (CHR ''-'' # run) = CHR ''-'' # run" by (intro trim_id) simp_all
  then show ?thesis
    by (simp add: word_of_def js_replace_def re_leading_dash_def)
qed

lemma word_of_space_dash:
  "isSpace c \<Longrightarrow> run \<noteq> [] \<Longrightarrow> \<forall>x \<in> set run. nonSpace x \<Longrightarrow> word_of (c # CHR ''-'' # run) = run"
  using word_of_dash [of run] by (simp add: word_of_def trim_space_Cons)

lemma re_exclude_Nil [simp]: "re_exclude b [] = None"
  by (simp add: re_exclude_def)

lemma re_exclude_nonSpace:
  "nonSpace c \<Longrightarrow> re_exclude False (c # s) = None"
  by (simp add: re_exclude_def)

lemma matches_exclude_run:
  "\<forall>x \<in> set t. nonSpace x \<Longrightarrow>
   matches_from re_exclude False (t @ r) = matches_from re_exclude False r"
  by (induction t) (simp_all add: re_exclude_nonSpace)

lemma takeWhile_token:
  "\<forall>x \<in> set t. nonSpace x \<Longrightarrow> r = [] \<or> isSpace (hd r) \<Longrightarrow>
   takeWhile nonSpace (t @ r) = t \<and> dropWhile nonSpace (t @ r) = r"
  by (cases r) (simp_all add: takeWhile_append2 dropWhile_append2)

lemma matches_exclude_space:
  assumes "isSpace c"
  shows "map word_of (matches_from re_exclude b (c # s)) = map word_of (matches_from re_exclude True s)"
proof (cases s)
  case Nil
  with assms show ?thesis by (simp add: re_exclude_def)
next
  case (Cons d s')
  let ?run = "takeWhile nonSpace s'"
  have nr: "\<forall>x \<in> set ?run. nonSpace x" by (auto dest: set_takeWhileD)
  show ?thesis
  proof (cases "d = CHR ''-'' \<and> ?run \<noteq> []")
    case True
    then have 1: "re_exclude b (c # d # s') = Some (2 + length ?run)"
      and 2: "re_exclude True (d # s') = Some (1 + length ?run)"
      using assms by (auto simp: re_exclude_def)
    from True assms nr show ?thesis
      unfolding Cons matches_from.simps 1 2
      by (simp add: word_of_dash word_of_space_dash)
  next
    case False
    with assms have 1: "re_exclude b (c # d # s') = None"
      by (auto simp: re_exclude_def)
    from False have 2: "re_exclude True (d # s') = re_exclude False (d # s')"
      by (auto simp: re_exclude_def)
    show ?thesis
      unfolding Cons matches_from.simps 1 2 by simp
  qed
qed

lemma dash_words_Nil [simp]: "dash_words [] = []"
  by (simp add: dash_words_def)

lemma dash_words_space [simp]: "isSpace c \<Longrightarrow> dash_words (c # s) = dash_words s"
  by (simp add: dash_words_def)

lemma dash_words_token:
  "t \<noteq> [] \<Longrightarrow> \<forall>x \<in> set t. nonSpace x \<Longrightarrow> r = [] \<or> isSpace (hd r) \<Longrightarrow>
   dash_words (t @ r) = (if dash_token t then [tl t] else []) @ dash_words r"
  by (simp add: dash_words_def ws_words_token)

lemma matches_exclude_token:
  assumes t: "t \<noteq> []" "\<forall>x \<in> set t. nonSpace x" and r: "r = [] \<or> isSpace (hd r)"
  shows "map word_of (matches_from re_exclude True (t @ r)) =
     (if dash_token t then [tl t] else []) @ map word_of (matches_from re_exclude False r)"
proof -
  from t obtain x t' where tx: "t = x # t'" by (cases t) auto
  with t have nx: "nonSpace x" and nt': "\<forall>x \<in> set t'. nonSpace x" by simp_all
  from takeWhile_token [OF nt' r] have tw: "takeWhile nonSpace (t' @ r) = t'"
    and dw: "dropWhile nonSpace (t' @ r) = r" by simp_all
  show ?thesis
  proof (cases "dash_token t")
    case True
    with tx have x: "x = CHR ''-''" and t': "t' \<noteq> []"
      by (auto simp: dash_token_def split: list.splits)
    from x t' tw have 1: "re_exclude True (x # t' @ r) = Some (1 + length t')"
      by (simp add: re_exclude_def)
    have 2: "drop (length t') (t' @ r) = r" by simp
    from True x t' nt' show ?thesis
      unfolding tx append_Cons matches_from.simps 1
      by (simp add: word_of_dash)
  next
    case False
    with tx have "\<not> (x = CHR ''-'' \<and> t' \<noteq> [])"
      by (auto simp: dash_token_def split: list.splits)
    with nx tw have 1: "re_exclude True (x # t' @ r) = None"
      by (auto simp: re_exclude_def)
    from False show ?thesis
      unfolding tx append_Cons matches_from.simps 1
      by (simp add: matches_exclude_run [OF nt'])
  qed
qed

lemma exclude_words:
  "b \<or> s = [] \<or> isSpace (hd s) \<Longrightarrow>
   map word_of (matches_from re_exclude b s) = dash_words s"
proof (induction s arbitrary: b rule: token_induct)
  case Nil
  then show ?case by simp
next
  case (Space c s)
  have "map word_of (matches_from re_exclude True s) = dash_words s"
    by (rule Space.IH) simp
  with Space.hyps show ?case by (simp add: matches_exclude_space del: matches_from.simps)
next
  case (Token t r)
  from Token.hyps(1,2) have "nonSpace (hd (t @ r))" by (cases t) auto
  with Token.prems Token.hyps(1) have b: "b" by auto
  have "map word_of (matches_from re_exclude False r) = dash_words r"
    using Token.hyps(3) by (intro Token.IH) simp
  with b show ?case
    by (simp add: matches_exclude_token [OF Token.hyps] dash_words_token [OF Token.hyps])
qed

subsection \<open>The quoted-span expression\<close>

lemma re_quoted_Nil [simp]: "re_quoted b [] = None"
  by (simp add: re_quoted_def)

lemma re_quoted_other:
  "c \<noteq> dquote \<Longrightarrow> re_quoted b (c # s) = None"
  "dquote \<noteq> c \<Longrightarrow> re_quoted b (c # s) = None"
  by (auto simp: re_quoted_def)

lemma matches_quoted_none: "dquote \<notin> set s \<Longrightarrow> matches_from re_quoted b s = []"
  by (induction s arbitrary: b) (simp_all add: re_quoted_other)

lemma replace_quoted_none: "dquote \<notin> set s \<Longrightarrow> replace_from re_quoted rep b s = s"
  by (induction s arbitrary: b) (simp_all add: re_quoted_other)

lemma strip_quotes: "js_replace_g m re_dquote [] = filter notQuote m"
  by (induction m) (simp_all add: js_replace_g_def replace_dquote)

lemma quoted_scan_Some:
  "quoted_scan (Some acc) cs =
     (case dropWhile notQuote cs of
        [] \<Rightarrow> []
      | _ # r \<Rightarrow>
          if acc @ takeWhile notQuote cs = [] then quoted_scan (Some []) r
          else (acc @ takeWhile notQuote cs) # quoted_scan None r)"
  by (induction cs arbitrary: acc) (simp_all del: dropWhile_eq_Nil_conv split: list.split)

lemma quoted_matches:
  "map (filter notQuote) (matches_from re_quoted b s) = quoted_scan None s"
proof (induction "length s" arbitrary: s b rule: less_induct)
  case less
  show ?case
  proof (cases s)
    case Nil
    then show ?thesis by simp
  next
    case (Cons c cs)
    show ?thesis
    proof (cases "c = dquote")
      case False
      with Cons less show ?thesis by (simp add: re_quoted_other)
    next
      case True
      let ?inner = "takeWhile notQuote cs" and ?rest = "dropWhile notQuote cs"
      have ni: "dquote \<notin> set ?inner" by (auto dest: set_takeWhileD)
      show ?thesis
      proof (cases ?rest)
        case Nil
        then have nq: "dquote \<notin> set cs" by (auto simp: dropWhile_eq_Nil_conv)
        from Nil have "re_quoted b (c # cs) = None"
          by (simp add: re_quoted_def Let_def del: dropWhile_eq_Nil_conv)
        moreover have "quoted_scan (Some []) cs = []"
          unfolding quoted_scan_Some [of "[]" cs] Nil by simp
        ultimately show ?thesis
          using Cons True nq by (simp add: matches_quoted_none)
      next
        case (Cons d r)
        then have d: "d = dquote" using hd_dropWhile [of notQuote cs] by auto
        have cs: "cs = ?inner @ dquote # r"
          using Cons d takeWhile_dropWhile_id [of notQuote cs] by simp
        show ?thesis
        proof (cases "?inner = []")
          case True
          with cs have cs': "cs = dquote # r" by simp
          have 1: "re_quoted b (c # cs) = None" using True by (simp add: re_quoted_def)
          have "map (filter notQuote) (matches_from re_quoted False cs) =
              quoted_scan None cs"
            using \<open>s = c # cs\<close> by (intro less) simp
          with 1 \<open>s = c # cs\<close> \<open>c = dquote\<close> cs' show ?thesis by simp
        next
          case False
          have 1: "re_quoted b (c # cs) = Some (length ?inner + 2)"
            using False \<open>c = dquote\<close> Cons d by (simp add: re_quoted_def)
          have 2: "take (length ?inner + 2) (c # cs) = dquote # ?inner @ [dquote]"
            using \<open>c = dquote\<close> by (subst (2) cs) simp
          have 3: "drop (length ?inner + 2 - 1) cs = r"
            by (subst (2) cs) simp
          have "length r < length cs" using arg_cong [OF cs, of length] by simp
          then have "length r < length s" using \<open>s = c # cs\<close> by simp
          then have 4: "map (filter notQuote) (matches_from re_quoted False r) =
              quoted_scan None r"
            by (rule less)
          have 5: "filter notQuote (dquote # ?inner @ [dquote]) = ?inner"
            using ni by (auto simp: filter_id_conv)
          have "quoted_scan None s = ?inner # quoted_scan None r"
            using \<open>s = c # cs\<close> \<open>c = dquote\<close> False Cons
            by (simp add: quoted_scan_Some [of "[]" cs])
          moreover have "map (filter notQuote) (matches_from re_quoted b s) =
              ?inner # quoted_scan None r"
            unfolding \<open>s = c # cs\<close> matches_from.simps 1 option.case list.map 2 3 4 5
            by simp
          ultimately show ?thesis by simp
        qed
      qed
    qed
  qed
qed

lemma exact_values:
  "map (\<lambda>m. js_replace_g m re_dquote []) (matches_from re_quoted True s) = quoted_spans s"
  by (simp add: strip_quotes quoted_spans_def quoted_matches)

subsection \<open>The parser, part by part\<close>

lemma exact_entry:
  "(case js_match_g q re_quoted of
      None \<Rightarrow> fs
    | Some ms \<Rightarrow>
        foldl (\<lambda>fs m. fs @ [\<lparr>filter_id = ''exact'', filter_value = js_replace_g m re_dquote []\<rparr>])
          fs ms) =
   fs @ map (\<lambda>v. \<lparr>filter_id = ''exact'', filter_value = v\<rparr>) (quoted_spans q)"
proof -
  have "foldl (\<lambda>fs m. fs @ [\<lparr>filter_id = ''exact'', filter_value = js_replace_g m re_dquote []\<rparr>])
      fs (matches_from re_quoted True q) =
    fs @ map (\<lambda>v. \<lparr>filter_id = ''exact'', filter_value = v\<rparr>) (quoted_spans q)"
    unfolding foldl_push exact_values [symmetric] by (simp add: comp_def)
  then show ?thesis
    by (cases "matches_from re_quoted True q") (simp_all add: js_match_g_def)
qed

lemma exclude_entry:
  "(case js_match_g q re_exclude of
      None \<Rightarrow> fs
    | Some ms \<Rightarrow>
        if length (map (\<lambda>m. js_replace (trim m) re_leading_dash []) ms) \<noteq> 0
        then fs @ [\<lparr>filter_id = ''exclude'',
                    filter_value = join '' '' (map (\<lambda>m. js_replace (trim m) re_leading_dash []) ms)\<rparr>]
        else fs) =
   fs @ entry ''exclude'' (exclude_value q)"
proof -
  have w: "map (\<lambda>m. js_replace (trim m) re_leading_dash []) (matches_from re_exclude True q) =
      dash_words q"
    using exclude_words [of True q] by (simp add: word_of_def [abs_def])
  show ?thesis
  proof (cases "matches_from re_exclude True q")
    case Nil
    with w show ?thesis by (simp add: js_match_g_def exclude_value_def)
  next
    case (Cons m ms)
    with w have "dash_words q \<noteq> []" by auto
    with w Cons show ?thesis
      by (simp add: js_match_g_def exclude_value_def Let_def del: list.map)
  qed
qed

lemma parse_parts:
  "parseQueryFilters q =
     entry ''after'' (first_value ''after:'' q) @
     entry ''before'' (first_value ''before:'' q) @
     entry ''intitle'' (first_value ''intitle:'' q) @
     map (\<lambda>v. \<lparr>filter_id = ''exact'', filter_value = v\<rparr>) (quoted_spans q) @
     entry ''exclude'' (exclude_value q) @
     entry ''channel'' (first_value ''channel:'' q) @
     entry ''hashtag'' (first_value ''#'' q)"
  unfolding parseQueryFilters_def Let_def operator_entry exact_entry exclude_entry
  by simp

subsection \<open>The order of the entries\<close>

lemma sorted_parts:
  "sorted (map (id_rank \<circ> filter_id)
     (entry ''after'' a @ entry ''before'' b @ entry ''intitle'' c @
      map (\<lambda>v. \<lparr>filter_id = ''exact'', filter_value = v\<rparr>) xs @
      entry ''exclude'' e @ entry ''channel'' d @ entry ''hashtag'' h))"
proof -
  have x: "sorted (map (id_rank \<circ> filter_id) (map (\<lambda>v. \<lparr>filter_id = ''exact'', filter_value = v\<rparr>) xs))"
    by (induction xs) (auto simp: id_rank_def)
  have s: "set (map (id_rank \<circ> filter_id) (map (\<lambda>v. \<lparr>filter_id = ''exact'', filter_value = v\<rparr>) xs)) \<subseteq> {3}"
    by (auto simp: id_rank_def)
  from x s show ?thesis
    by (cases a; cases b; cases c; cases e; cases d; cases h)
      (auto simp: sorted_append id_rank_def)
qed

text \<open>
  Claim C3. \<open>parseQueryFilters\<close> returns its entries in the fixed order after, before,
  intitle, exact (one entry per quoted span), exclude (one entry for all dash words),
  channel, hashtag, wherever the operators stand in the input: the ranks of the ids of
  the result are sorted. Each of after, before, intitle, channel and hashtag gives at
  most one entry, with the run that follows the first occurrence of its token.
\<close>

theorem parseQueryFilters_order:
  "parseQueryFilters q =
     entry ''after'' (first_value ''after:'' q) @
     entry ''before'' (first_value ''before:'' q) @
     entry ''intitle'' (first_value ''intitle:'' q) @
     map (\<lambda>v. \<lparr>filter_id = ''exact'', filter_value = v\<rparr>) (quoted_spans q) @
     entry ''exclude'' (exclude_value q) @
     entry ''channel'' (first_value ''channel:'' q) @
     entry ''hashtag'' (first_value ''#'' q) \<and>
   sorted (map (id_rank \<circ> filter_id) (parseQueryFilters q))"
  unfolding parse_parts using sorted_parts by simp

theorem parseQueryFilters_order_witness:
  "parseQueryFilters (''#h2 channel:c1 -x '' @ [dquote] @ ''p q'' @ [dquote] @ '' #h1 after:a1 -y after:a2'') =
     [\<lparr>filter_id = ''after'', filter_value = ''a1''\<rparr>,
      \<lparr>filter_id = ''exact'', filter_value = ''p q''\<rparr>,
      \<lparr>filter_id = ''exclude'', filter_value = ''x y''\<rparr>,
      \<lparr>filter_id = ''channel'', filter_value = ''c1''\<rparr>,
      \<lparr>filter_id = ''hashtag'', filter_value = ''h2''\<rparr>]"
  (is "parseQueryFilters ?q = ?r")
proof -
  have "entry ''after'' (first_value ''after:'' ?q) @
     entry ''before'' (first_value ''before:'' ?q) @
     entry ''intitle'' (first_value ''intitle:'' ?q) @
     map (\<lambda>v. \<lparr>filter_id = ''exact'', filter_value = v\<rparr>) (quoted_spans ?q) @
     entry ''exclude'' (exclude_value ?q) @
     entry ''channel'' (first_value ''channel:'' ?q) @
     entry ''hashtag'' (first_value ''#'' ?q) = ?r"
    by code_simp
  with parseQueryFilters_order [of ?q] show ?thesis by simp
qed

subsection \<open>The exclude entry\<close>

lemma filter_entry:
  "filter (\<lambda>f. filter_id f = j) (entry i x) = (if i = j then entry i x else [])"
  by (cases x) simp_all

lemma filter_exact:
  "filter (\<lambda>f. filter_id f = j) (map (\<lambda>v. \<lparr>filter_id = ''exact'', filter_value = v\<rparr>) xs) =
     (if j = ''exact'' then map (\<lambda>v. \<lparr>filter_id = ''exact'', filter_value = v\<rparr>) xs else [])"
  by (induction xs) auto

text \<open>
  Claim C5. The exclude entries of \<open>parseQueryFilters\<close>: the dash words of the input
  are the white-space-delimited tokens that start with a dash followed by at least one
  more unit (so the dash is at the start of the input or after white space, and a dash
  inside a token does not count), each without its dash. If there is none, there is no
  exclude entry; otherwise there is exactly one, whose value is the dash words in order
  of appearance joined by single spaces.
\<close>

theorem exclude_rule:
  "filter (\<lambda>f. filter_id f = ''exclude'') (parseQueryFilters q) =
     (if dash_words q = [] then []
      else [\<lparr>filter_id = ''exclude'', filter_value = join '' '' (dash_words q)\<rparr>])"
  by (simp add: parse_parts filter_entry filter_exact exclude_value_def)

theorem exclude_rule_witness:
  "filter (\<lambda>f. filter_id f = ''exclude'') (parseQueryFilters ''re-watch after:2024-01-01'') = [] \<and>
   filter (\<lambda>f. filter_id f = ''exclude'') (parseQueryFilters ''-a re-watch - --b  -c'') =
     [\<lparr>filter_id = ''exclude'', filter_value = ''a -b c''\<rparr>]"
proof -
  have 1: "dash_words ''re-watch after:2024-01-01'' = []" by code_simp
  have 2: "dash_words ''-a re-watch - --b  -c'' = [''a'', ''-b'', ''c'']" by code_simp
  from exclude_rule [of "''re-watch after:2024-01-01''"] exclude_rule [of "''-a re-watch - --b  -c''"]
  show ?thesis unfolding 1 2 by simp
qed

subsection \<open>First occurrences\<close>

lemma entry_mem: "\<lparr>filter_id = i, filter_value = v\<rparr> \<in> set (entry j x) \<longleftrightarrow> i = j \<and> x = Some v"
  by (cases x) auto

lemma occurs_at_less: "occurs_at tok q k \<Longrightarrow> k < length q"
  by (cases "k < length q") (simp_all add: occurs_at_def)

lemma find_upt_Some:
  "find P [0..<n] = Some k \<longleftrightarrow> k < n \<and> P k \<and> (\<forall>j<k. \<not> P j)"
  by (auto simp: find_Some_iff)

lemma first_value_Some:
  "first_value tok q = Some v \<longleftrightarrow>
     (\<exists>k. occurs_at tok q k \<and> (\<forall>j<k. \<not> occurs_at tok q j) \<and> v = run_at tok q k)"
  by (auto simp: first_value_def find_upt_Some dest: occurs_at_less)

text \<open>
  Claim C6, amended. For after, before, intitle and channel, \<open>parseQueryFilters\<close> has
  the entry with value \<open>v\<close> exactly when \<open>v\<close> is the non-space run that follows the
  first occurrence, anywhere in the input (at the start of a token or inside a larger
  one), of the operator token immediately followed by a non-space unit; the run is
  captured as it stands.
\<close>

theorem operator_first_occurrence:
  assumes "(i, tok) \<in> {(''after'', ''after:''), (''before'', ''before:''),
                        (''intitle'', ''intitle:''), (''channel'', ''channel:'')}"
  shows "\<lparr>filter_id = i, filter_value = v\<rparr> \<in> set (parseQueryFilters q) \<longleftrightarrow>
     (\<exists>k. occurs_at tok q k \<and> (\<forall>j<k. \<not> occurs_at tok q j) \<and> v = run_at tok q k)"
proof -
  from assms have "(i = ''after'' \<and> tok = ''after:'') \<or> (i = ''before'' \<and> tok = ''before:'') \<or>
      (i = ''intitle'' \<and> tok = ''intitle:'') \<or> (i = ''channel'' \<and> tok = ''channel:'')"
    by simp
  then have "\<lparr>filter_id = i, filter_value = v\<rparr> \<in> set (parseQueryFilters q) \<longleftrightarrow>
      first_value tok q = Some v"
    by (elim disjE conjE) (simp_all add: parse_parts entry_mem image_iff)
  then show ?thesis by (simp only: first_value_Some)
qed

theorem operator_first_occurrence_witness:
  "\<lparr>filter_id = ''channel'', filter_value = ''b''\<rparr> \<in> set (parseQueryFilters ''xchannel:b channel:c'')"
proof -
  have 1: "occurs_at ''channel:'' ''xchannel:b channel:c'' 1" by code_simp
  have "\<not> occurs_at ''channel:'' ''xchannel:b channel:c'' 0" by code_simp
  then have 2: "\<forall>j<1. \<not> occurs_at ''channel:'' ''xchannel:b channel:c'' j" by simp
  have 3: "''b'' = run_at ''channel:'' ''xchannel:b channel:c'' 1" by code_simp
  have m: "(''channel'', ''channel:'') \<in> {(''after'', ''after:''), (''before'', ''before:''),
                        (''intitle'', ''intitle:''), (''channel'', ''channel:'')}"
    by simp
  have ex: "\<exists>k. occurs_at ''channel:'' ''xchannel:b channel:c'' k \<and>
      (\<forall>j<k. \<not> occurs_at ''channel:'' ''xchannel:b channel:c'' j) \<and>
      ''b'' = run_at ''channel:'' ''xchannel:b channel:c'' k"
    using 1 2 3 by (intro exI [of _ 1] conjI)
  show ?thesis
    by (rule operator_first_occurrence [OF m, THEN iffD2, OF ex])
qed

text \<open>
  The claim as stated fails: the token inside a larger token is recognised.
\<close>

theorem operator_boundary_counterexample:
  "parseQueryFilters ''grafter:2024-01-01'' = [\<lparr>filter_id = ''after'', filter_value = ''2024-01-01''\<rparr>]"
  by code_simp

subsection \<open>Values are not empty\<close>

lemma run_at_nonempty: "occurs_at tok q k \<Longrightarrow> run_at tok q k \<noteq> []"
proof -
  assume "occurs_at tok q k"
  then obtain c r where "drop (k + length tok) q = c # r" "nonSpace c"
    by (cases "drop (k + length tok) q") (simp_all add: occurs_at_def)
  then show ?thesis by (simp add: run_at_def)
qed

lemma quoted_scan_nonempty: "[] \<notin> set (quoted_scan st s)"
proof (induction st s rule: quoted_scan.induct)
  case 1
  then show ?case by simp
next
  case (2 c cs)
  then show ?case by (cases "c = dquote") simp_all
next
  case (3 acc)
  then show ?case by simp
next
  case (4 acc c cs)
  then show ?case by (cases "c = dquote"; cases "acc = []") simp_all
qed

lemma dash_words_nonempty: "\<forall>w \<in> set (dash_words s). w \<noteq> []"
  by (auto simp: dash_words_def dash_token_def split: list.splits)

lemma entry_nonempty: "x \<noteq> Some [] \<Longrightarrow> list_all (\<lambda>f. filter_value f \<noteq> []) (entry i x)"
  by (cases x) simp_all

lemma first_value_nonempty: "first_value tok q \<noteq> Some []"
proof
  assume "first_value tok q = Some []"
  then obtain k where "occurs_at tok q k" "[] = run_at tok q k"
    unfolding first_value_Some by blast
  with run_at_nonempty [of tok q k] show False by simp
qed

lemma exclude_value_nonempty: "exclude_value q \<noteq> Some []"
  using join_eq_Nil [OF dash_words_nonempty, of "'' ''" q]
  by (simp add: exclude_value_def)

lemma exact_nonempty:
  "list_all (\<lambda>f. filter_value f \<noteq> [])
     (map (\<lambda>v. \<lparr>filter_id = ''exact'', filter_value = v\<rparr>) (quoted_spans q))"
  using quoted_scan_nonempty [of None q] by (auto simp: list_all_iff quoted_spans_def)

text \<open>
  Claim C10. No entry that \<open>parseQueryFilters\<close> returns has the empty value.
\<close>

theorem parse_values_nonempty: "\<forall>f \<in> set (parseQueryFilters q). filter_value f \<noteq> []"
proof -
  have "list_all (\<lambda>f. filter_value f \<noteq> []) (parseQueryFilters q)"
    unfolding parse_parts list_all_append
    by (intro conjI entry_nonempty first_value_nonempty exclude_value_nonempty exact_nonempty)
  then show ?thesis by (simp add: list_all_iff)
qed

theorem parse_values_nonempty_witness:
  "list_all (\<lambda>f. filter_value f \<noteq> [])
     (parseQueryFilters ([dquote, dquote] @ '' - # after: intitle:t -w '' @ [dquote] @ ''e'' @ [dquote])) \<and>
   length (parseQueryFilters ([dquote, dquote] @ '' - # after: intitle:t -w '' @ [dquote] @ ''e'' @ [dquote])) = 3"
proof -
  have "length (parseQueryFilters ([dquote, dquote] @ '' - # after: intitle:t -w '' @ [dquote] @ ''e'' @ [dquote])) = 3"
    by code_simp
  with parse_values_nonempty [of "[dquote, dquote] @ '' - # after: intitle:t -w '' @ [dquote] @ ''e'' @ [dquote]"]
  show ?thesis by (simp add: list_all_iff)
qed

subsection \<open>Round trip\<close>

lemma build_single: "buildQueryString [f] = join '' '' (spec_tokens f)"
  by (simp add: buildQueryString_def buildQueryString_step_eq)

lemma first_value_prefix:
  assumes "v \<noteq> []" "\<forall>c \<in> set v. nonSpace c"
  shows "first_value tok (tok @ v) = Some v"
proof -
  from assms obtain c r where v: "v = c # r" and c: "nonSpace c" by (cases v) auto
  have o: "occurs_at tok (tok @ v) 0" by (simp add: occurs_at_def v c)
  have "[0..<length (tok @ v)] = 0 # [1..<length (tok @ v)]"
    using assms(1) by (simp add: upt_conv_Cons)
  with o have "find (occurs_at tok (tok @ v)) [0..<length (tok @ v)] = Some 0" by simp
  moreover have "run_at tok (tok @ v) 0 = v" using assms(2) by (simp add: run_at_def)
  ultimately show ?thesis by (simp add: first_value_def)
qed

lemma roundtrip_operator:
  assumes it: "(i = ''after'' \<and> tok = ''after:'') \<or> (i = ''before'' \<and> tok = ''before:'') \<or>
      (i = ''intitle'' \<and> tok = ''intitle:'') \<or> (i = ''channel'' \<and> tok = ''channel:'') \<or>
      (i = ''hashtag'' \<and> tok = ''#'')"
    and v: "v \<noteq> []" "\<forall>c \<in> set v. nonSpace c"
  shows "buildQueryString [\<lparr>filter_id = i, filter_value = v\<rparr>] = tok @ v"
    and "\<lparr>filter_id = i, filter_value = v\<rparr> \<in> set (parseQueryFilters (tok @ v))"
proof -
  from v have "nonSpace (hd v)" "nonSpace (last v)" by simp_all
  with v have tv: "trim v = v" by (simp add: trim_id)
  from v have ns: "\<not> list_all isSpace v" by (cases v) auto
  from it show "buildQueryString [\<lparr>filter_id = i, filter_value = v\<rparr>] = tok @ v"
    by (elim disjE conjE)
      (simp_all add: build_single spec_tokens_def inert_def catalog_ids_def ns tv)
  from it show "\<lparr>filter_id = i, filter_value = v\<rparr> \<in> set (parseQueryFilters (tok @ v))"
    unfolding parse_parts using first_value_prefix [OF v, of tok]
    by (elim disjE conjE) (simp_all del: append.simps)
qed

lemma roundtrip_exact:
  assumes "v \<noteq> []" "nonSpace (hd v)" "nonSpace (last v)" "dquote \<notin> set v"
  shows "\<lparr>filter_id = ''exact'', filter_value = v\<rparr> \<in>
     set (parseQueryFilters (buildQueryString [\<lparr>filter_id = ''exact'', filter_value = v\<rparr>]))"
proof -
  from assms have tv: "trim v = v" by (simp add: trim_id)
  from assms have ns: "\<not> list_all isSpace v" by (cases v) auto
  have b: "buildQueryString [\<lparr>filter_id = ''exact'', filter_value = v\<rparr>] = dquote # v @ [dquote]"
    by (simp add: build_single spec_tokens_def inert_def catalog_ids_def ns tv)
  from assms(4) have "\<And>x. x \<in> set v \<Longrightarrow> notQuote x" by auto
  then have "takeWhile notQuote (v @ [dquote]) = v" "dropWhile notQuote (v @ [dquote]) = [dquote]"
    by (simp_all add: takeWhile_append2 dropWhile_append2)
  with assms(1) have "quoted_spans (dquote # v @ [dquote]) = [v]"
    by (simp add: quoted_spans_def quoted_scan_Some [of "[]" "v @ [dquote]"])
  then show ?thesis unfolding b parse_parts by simp
qed

lemma proper_ws_words: "proper (ws_words s)"
  using ws_words_props by (auto simp: proper_def)

lemma proper_Cons: "proper (t # ts) \<longleftrightarrow> t \<noteq> [] \<and> (\<forall>x \<in> set t. nonSpace x) \<and> proper ts"
  by (auto simp: proper_def)

lemma ws_words_single: "t \<noteq> [] \<Longrightarrow> \<forall>x \<in> set t. nonSpace x \<Longrightarrow> ws_words t = [t]"
  using ws_words_token [of t "[]"] by simp

lemma ws_words_join: "proper ts \<Longrightarrow> ws_words (join '' '' ts) = ts"
proof (induction "'' ''" ts rule: join.induct)
  case 1
  then show ?case by simp
next
  case (2 x)
  then show ?case by (simp add: proper_Cons ws_words_single)
next
  case (3 x y ys)
  from 3 have "ws_words (join '' '' (y # ys)) = y # ys" by (simp add: proper_Cons)
  moreover from 3 have "ws_words (x @ CHR '' '' # join '' '' (y # ys)) =
      x # ws_words (CHR '' '' # join '' '' (y # ys))"
    by (intro ws_words_token) (simp_all add: proper_Cons)
  ultimately show ?case by simp
qed

lemma words_acc_spaces: "list_all isSpace sp \<Longrightarrow> words_acc cur sp = (if cur = [] then [] else [cur])"
  by (induction sp arbitrary: cur) simp_all

lemma words_acc_append_spaces:
  "list_all isSpace sp \<Longrightarrow> words_acc cur (s @ sp) = words_acc cur s"
  by (induction s arbitrary: cur) (simp_all add: words_acc_spaces)

lemma rtrim_decomp:
  "s = rev (dropWhile isSpace (rev s)) @ rev (takeWhile isSpace (rev s))"
proof -
  have "rev s = takeWhile isSpace (rev s) @ dropWhile isSpace (rev s)" by simp
  then have "rev (rev s) = rev (takeWhile isSpace (rev s) @ dropWhile isSpace (rev s))"
    by (rule arg_cong)
  then show ?thesis by (simp only: rev_rev_ident rev_append)
qed

lemma ws_words_rtrim: "ws_words (rev (dropWhile isSpace (rev s))) = ws_words s"
proof -
  have "list_all isSpace (rev (takeWhile isSpace (rev s)))"
    by (auto simp: list_all_iff dest: set_takeWhileD)
  from words_acc_append_spaces [OF this, of "[]" "rev (dropWhile isSpace (rev s))"]
  show ?thesis unfolding ws_words_def rtrim_decomp [symmetric] by simp
qed

lemma ws_words_trim: "ws_words (trim s) = ws_words s"
  unfolding trim_def ws_words_rtrim by (simp add: ws_words_def words_acc_dropWhile)

lemma dash_prefix: "(@) ''-'' = (#) CHR ''-''"
  by (rule ext) simp

lemma dash_words_join:
  "proper ws \<Longrightarrow> dash_words (join '' '' (map ((#) CHR ''-'') ws)) = ws"
proof -
  assume p: "proper ws"
  then have "proper (map ((#) CHR ''-'') ws)" by (auto simp: proper_def)
  then have "ws_words (join '' '' (map ((#) CHR ''-'') ws)) = map ((#) CHR ''-'') ws"
    by (rule ws_words_join)
  moreover have "map tl (filter dash_token (map ((#) CHR ''-'') ws)) = ws"
    using p by (induction ws) (auto simp: proper_def dash_token_def split: list.splits)
  ultimately show ?thesis by (simp add: dash_words_def)
qed

lemma parse_exclude_entries:
  "filter (\<lambda>f. filter_id f = ''exclude'') (parseQueryFilters q) =
     (if dash_words q = [] then []
      else [\<lparr>filter_id = ''exclude'', filter_value = join '' '' (dash_words q)\<rparr>])"
  by (simp add: parse_parts filter_entry filter_exact exclude_value_def)

lemma roundtrip_exclude:
  assumes "\<not> list_all isSpace v"
  shows "filter (\<lambda>f. filter_id f = ''exclude'')
       (parseQueryFilters (buildQueryString [\<lparr>filter_id = ''exclude'', filter_value = v\<rparr>])) =
     [\<lparr>filter_id = ''exclude'', filter_value = join '' '' (ws_words v)\<rparr>]"
proof -
  have b: "buildQueryString [\<lparr>filter_id = ''exclude'', filter_value = v\<rparr>] =
      join '' '' (map ((#) CHR ''-'') (ws_words v))"
    using assms
    by (simp add: build_single spec_tokens_def inert_def catalog_ids_def ws_words_trim dash_prefix)
  from assms have "ws_words v \<noteq> []" by (simp add: ws_words_eq_Nil)
  then show ?thesis
    unfolding b parse_exclude_entries dash_words_join [OF proper_ws_words] by simp
qed

lemma roundtrip_five:
  assumes "v \<noteq> []" "\<forall>c \<in> set v. nonSpace c"
  shows "\<lparr>filter_id = ''after'', filter_value = v\<rparr> \<in>
      set (parseQueryFilters (buildQueryString [\<lparr>filter_id = ''after'', filter_value = v\<rparr>]))"
    and "\<lparr>filter_id = ''before'', filter_value = v\<rparr> \<in>
      set (parseQueryFilters (buildQueryString [\<lparr>filter_id = ''before'', filter_value = v\<rparr>]))"
    and "\<lparr>filter_id = ''intitle'', filter_value = v\<rparr> \<in>
      set (parseQueryFilters (buildQueryString [\<lparr>filter_id = ''intitle'', filter_value = v\<rparr>]))"
    and "\<lparr>filter_id = ''channel'', filter_value = v\<rparr> \<in>
      set (parseQueryFilters (buildQueryString [\<lparr>filter_id = ''channel'', filter_value = v\<rparr>]))"
    and "\<lparr>filter_id = ''hashtag'', filter_value = v\<rparr> \<in>
      set (parseQueryFilters (buildQueryString [\<lparr>filter_id = ''hashtag'', filter_value = v\<rparr>]))"
  using roundtrip_operator [of "''after''" "''after:''" v]
    roundtrip_operator [of "''before''" "''before:''" v]
    roundtrip_operator [of "''intitle''" "''intitle:''" v]
    roundtrip_operator [of "''channel''" "''channel:''" v]
    roundtrip_operator [of "''hashtag''" "''#''" v] assms
  by simp_all

text \<open>
  Claim C1, amended. Building the query string of one entry and parsing it back:
  for after, before, intitle, channel and hashtag, the result contains the entry when
  its value is not empty and has no white space; for exact, when its value is not
  empty, neither starts nor ends with white space and has no double quote; for exclude,
  when the value is not white space only, the result has exactly one exclude entry, whose
  value is the words of the value joined by single spaces.
\<close>

theorem roundtrip_single_entry:
  "(i \<in> {''after'', ''before'', ''intitle'', ''channel'', ''hashtag''} \<and> v \<noteq> [] \<and> (\<forall>c \<in> set v. nonSpace c) \<longrightarrow>
      \<lparr>filter_id = i, filter_value = v\<rparr> \<in>
        set (parseQueryFilters (buildQueryString [\<lparr>filter_id = i, filter_value = v\<rparr>]))) \<and>
   (v \<noteq> [] \<and> nonSpace (hd v) \<and> nonSpace (last v) \<and> dquote \<notin> set v \<longrightarrow>
      \<lparr>filter_id = ''exact'', filter_value = v\<rparr> \<in>
        set (parseQueryFilters (buildQueryString [\<lparr>filter_id = ''exact'', filter_value = v\<rparr>]))) \<and>
   (\<not> list_all isSpace v \<longrightarrow>
      filter (\<lambda>f. filter_id f = ''exclude'')
        (parseQueryFilters (buildQueryString [\<lparr>filter_id = ''exclude'', filter_value = v\<rparr>])) =
      [\<lparr>filter_id = ''exclude'', filter_value = join '' '' (ws_words v)\<rparr>])"
proof (intro conjI impI)
  assume a: "i \<in> {''after'', ''before'', ''intitle'', ''channel'', ''hashtag''} \<and> v \<noteq> [] \<and>
      (\<forall>c \<in> set v. nonSpace c)"
  then have v: "v \<noteq> []" "\<forall>c \<in> set v. nonSpace c" by simp_all
  from a have "i = ''after'' \<or> i = ''before'' \<or> i = ''intitle'' \<or> i = ''channel'' \<or> i = ''hashtag''"
    by simp
  then show "\<lparr>filter_id = i, filter_value = v\<rparr> \<in>
        set (parseQueryFilters (buildQueryString [\<lparr>filter_id = i, filter_value = v\<rparr>]))"
    by (elim disjE) (simp_all only: roundtrip_five [OF v])
next
  assume "v \<noteq> [] \<and> nonSpace (hd v) \<and> nonSpace (last v) \<and> dquote \<notin> set v"
  then show "\<lparr>filter_id = ''exact'', filter_value = v\<rparr> \<in>
        set (parseQueryFilters (buildQueryString [\<lparr>filter_id = ''exact'', filter_value = v\<rparr>]))"
    by (simp add: roundtrip_exact)
next
  assume "\<not> list_all isSpace v"
  then show "filter (\<lambda>f. filter_id f = ''exclude'')
        (parseQueryFilters (buildQueryString [\<lparr>filter_id = ''exclude'', filter_value = v\<rparr>])) =
      [\<lparr>filter_id = ''exclude'', filter_value = join '' '' (ws_words v)\<rparr>]"
    by (rule roundtrip_exclude)
qed

theorem roundtrip_single_entry_witness:
  "\<lparr>filter_id = ''hashtag'', filter_value = ''shorts''\<rparr> \<in>
     set (parseQueryFilters (buildQueryString [\<lparr>filter_id = ''hashtag'', filter_value = ''shorts''\<rparr>])) \<and>
   \<lparr>filter_id = ''exact'', filter_value = ''hello world''\<rparr> \<in>
     set (parseQueryFilters (buildQueryString [\<lparr>filter_id = ''exact'', filter_value = ''hello world''\<rparr>])) \<and>
   filter (\<lambda>f. filter_id f = ''exclude'')
     (parseQueryFilters (buildQueryString [\<lparr>filter_id = ''exclude'', filter_value = '' spam  ads''\<rparr>])) =
   [\<lparr>filter_id = ''exclude'', filter_value = ''spam ads''\<rparr>]"
proof -
  have w: "join '' '' (ws_words '' spam  ads'') = ''spam ads''" by code_simp
  have 1: "\<lparr>filter_id = ''hashtag'', filter_value = ''shorts''\<rparr> \<in>
     set (parseQueryFilters (buildQueryString [\<lparr>filter_id = ''hashtag'', filter_value = ''shorts''\<rparr>]))"
    using roundtrip_single_entry [of "''hashtag''" "''shorts''", THEN conjunct1] by (simp add: isSpace_def)
  have 2: "\<lparr>filter_id = ''exact'', filter_value = ''hello world''\<rparr> \<in>
     set (parseQueryFilters (buildQueryString [\<lparr>filter_id = ''exact'', filter_value = ''hello world''\<rparr>]))"
    using roundtrip_single_entry [of i "''hello world''", THEN conjunct2, THEN conjunct1] by (simp add: isSpace_def)
  have 3: "filter (\<lambda>f. filter_id f = ''exclude'')
     (parseQueryFilters (buildQueryString [\<lparr>filter_id = ''exclude'', filter_value = '' spam  ads''\<rparr>])) =
   [\<lparr>filter_id = ''exclude'', filter_value = ''spam ads''\<rparr>]"
    using roundtrip_single_entry [of i "'' spam  ads''", THEN conjunct2, THEN conjunct2] unfolding w
    by (simp add: isSpace_def)
  show ?thesis by (intro conjI 1 2 3)
qed

text \<open>
  The claim as stated fails: an intitle entry whose value has two words comes back with
  the first word only.
\<close>

theorem roundtrip_single_entry_counterexample:
  "\<lparr>filter_id = ''intitle'', filter_value = ''two words''\<rparr> \<notin>
     set (parseQueryFilters (buildQueryString [\<lparr>filter_id = ''intitle'', filter_value = ''two words''\<rparr>]))"
proof -
  have "parseQueryFilters (buildQueryString [\<lparr>filter_id = ''intitle'', filter_value = ''two words''\<rparr>]) =
      [\<lparr>filter_id = ''intitle'', filter_value = ''two''\<rparr>]"
    by code_simp
  then show ?thesis by simp
qed

subsection \<open>Removing one operator\<close>

lemma remove_op_Nil [simp]: "remove_op tok [] = []"
  by (simp add: remove_op_def js_replace_g_def re_operator_def)

lemma drop_pred_Cons: "0 < n \<Longrightarrow> drop (n - 1) cs = drop n (c # cs)"
  by (cases n) simp_all

lemma replace_operator_flag:
  "replace_from (re_operator tok) [] b s = replace_from (re_operator tok) [] True s"
  by (cases s) (simp_all add: re_operator_def)

lemma remove_op_occurs:
  assumes "occurs_at tok (c # cs) 0"
  shows "remove_op tok (c # cs) = remove_op tok (dropWhile nonSpace (drop (length tok) (c # cs)))"
proof -
  let ?run = "run_at tok (c # cs) 0"
  from assms have r: "?run \<noteq> []" by (rule run_at_nonempty)
  have "drop (length tok + length ?run - 1) cs = drop (length tok + length ?run) (c # cs)"
    using r by (intro drop_pred_Cons) simp
  also have "\<dots> = drop (length ?run) (drop (length tok) (c # cs))"
    by (simp only: drop_drop add.commute)
  also have "\<dots> = dropWhile nonSpace (drop (length tok) (c # cs))"
    by (simp add: run_at_def del: drop_drop)
  finally have d: "drop (length tok + length ?run - 1) cs =
      dropWhile nonSpace (drop (length tok) (c # cs))" .
  from r show ?thesis
    unfolding remove_op_def js_replace_g_def replace_from.simps re_operator_Some [OF assms]
      option.case d
    by (simp add: replace_operator_flag [of tok False])
qed

lemma remove_op_skip:
  assumes "\<not> occurs_at tok (c # cs) 0"
  shows "remove_op tok (c # cs) = c # remove_op tok cs"
  unfolding remove_op_def js_replace_g_def replace_from.simps re_operator_None [OF assms]
  by (simp add: replace_operator_flag [of tok False])

lemma set_replace_from: "set (replace_from re rep b s) \<subseteq> set s \<union> set rep"
proof (induction "length s" arbitrary: s b rule: less_induct)
  case less
  show ?case
  proof (cases s)
    case Nil
    then show ?thesis by (auto split: option.split)
  next
    case (Cons c cs)
    have 1: "set (replace_from re rep False cs) \<subseteq> set cs \<union> set rep"
      using Cons by (intro less) simp
    have 2: "set (replace_from re rep False (drop k cs)) \<subseteq> set cs \<union> set rep" for k
    proof -
      have "set (replace_from re rep False (drop k cs)) \<subseteq> set (drop k cs) \<union> set rep"
        using Cons by (intro less) simp
      with set_drop_subset [of k cs] show ?thesis by blast
    qed
    from 1 2 Cons show ?thesis by (auto split: option.split)
  qed
qed

lemma set_remove_op: "set (remove_op tok s) \<subseteq> set s"
  using set_replace_from [of "re_operator tok" "[]" True s]
  by (simp add: remove_op_def js_replace_g_def)

lemma occurs_at_token:
  assumes tok: "\<forall>x \<in> set tok. nonSpace x" and t: "\<forall>x \<in> set t. nonSpace x"
    and r: "r = [] \<or> isSpace (hd r)"
  shows "occurs_at tok (t @ r) 0 \<longleftrightarrow> occurs_at tok t 0"
proof (cases "length tok < length t")
  case True
  then obtain c u where "drop (length tok) t = c # u"
    by (cases "drop (length tok) t") simp_all
  with True show ?thesis by (simp add: occurs_at_def)
next
  case False
  then have nt: "\<not> occurs_at tok t 0" by (simp add: occurs_at_def)
  have "\<not> occurs_at tok (t @ r) 0"
  proof
    assume o: "occurs_at tok (t @ r) 0"
    from False have le: "length t \<le> length tok" by simp
    from o le have tk: "t @ take (length tok - length t) r = tok" by (simp add: occurs_at_def)
    from o le obtain c u where d: "drop (length tok - length t) r = c # u" and c: "nonSpace c"
      by (auto simp: occurs_at_def split: list.splits)
    from d have rne: "r \<noteq> []" by auto
    with r have sp: "isSpace (hd r)" by simp
    show False
    proof (cases "length tok = length t")
      case True
      with d sp c show False by simp
    next
      case False
      with \<open>\<not> length tok < length t\<close> have "0 < length tok - length t" by simp
      with rne have "hd r \<in> set (take (length tok - length t) r)"
        by (cases r; cases "length tok - length t") simp_all
      with tk have "hd r \<in> set tok" by (metis Un_iff set_append)
      with tok sp show False by simp
    qed
  qed
  with nt show ?thesis by simp
qed

lemma remove_op_token:
  assumes tok: "\<forall>x \<in> set tok. nonSpace x" and r: "r = [] \<or> isSpace (hd r)"
  shows "\<forall>x \<in> set t. nonSpace x \<Longrightarrow> remove_op tok (t @ r) = remove_op tok t @ remove_op tok r"
proof (induction t)
  case Nil
  then show ?case by simp
next
  case (Cons x t)
  then have t: "\<forall>x \<in> set t. nonSpace x" by simp
  note o = occurs_at_token [OF tok Cons.prems r]
  show ?case
  proof (cases "occurs_at tok (x # t) 0")
    case True
    with o have o': "occurs_at tok ((x # t) @ r) 0" by simp
    from True have len: "length tok < length (x # t)"
      by (cases "length tok < length (x # t)") (simp_all add: occurs_at_def)
    let ?d = "drop (length tok) (x # t)"
    have nd: "\<forall>y \<in> set ?d. nonSpace y"
      using Cons.prems in_set_dropD [of _ "length tok" "x # t"] by blast
    have da: "drop (length tok) ((x # t) @ r) = ?d @ r"
      using len by (subst drop_append) simp
    have 1: "dropWhile nonSpace (drop (length tok) ((x # t) @ r)) = r"
      unfolding da using takeWhile_token [OF nd r] by simp
    have 2: "dropWhile nonSpace ?d = []" using nd by simp
    from remove_op_occurs [of tok x "t @ r"] o' 1 have "remove_op tok ((x # t) @ r) = remove_op tok r"
      by simp
    moreover from remove_op_occurs [OF True] 2 have "remove_op tok (x # t) = []" by simp
    ultimately show ?thesis by simp
  next
    case False
    with o have "\<not> occurs_at tok (x # t @ r) 0" by simp
    with False Cons.IH [OF t] show ?thesis by (simp add: remove_op_skip)
  qed
qed

lemma occurs_at_space:
  assumes "\<forall>x \<in> set tok. nonSpace x" "isSpace c"
  shows "\<not> occurs_at tok (c # s) 0"
  using occurs_at_token [OF assms(1), of "[]" "c # s"] assms(2)
  by (simp add: occurs_at_def)

lemma remove_op_space:
  "\<forall>x \<in> set tok. nonSpace x \<Longrightarrow> isSpace c \<Longrightarrow> remove_op tok (c # s) = c # remove_op tok s"
  by (simp add: remove_op_skip occurs_at_space)

lemma remove_op_boundary:
  "\<forall>x \<in> set tok. nonSpace x \<Longrightarrow> r = [] \<or> isSpace (hd r) \<Longrightarrow>
   remove_op tok r = [] \<or> isSpace (hd (remove_op tok r))"
  by (cases r) (auto simp: remove_op_space)

lemma ws_words_append:
  "\<forall>x \<in> set u. nonSpace x \<Longrightarrow> r = [] \<or> isSpace (hd r) \<Longrightarrow>
   ws_words (u @ r) = (if u = [] then ws_words r else u # ws_words r)"
  by (simp add: ws_words_token)

lemma ws_words_remove_op:
  assumes tok: "\<forall>x \<in> set tok. nonSpace x"
  shows "ws_words (remove_op tok s) = cut_tokens tok (ws_words s)"
proof (induction s rule: token_induct)
  case Nil
  then show ?case by (simp add: cut_tokens_def)
next
  case (Space c s)
  with tok show ?case by (simp add: remove_op_space)
next
  case (Token t r)
  have u: "\<forall>x \<in> set (remove_op tok t). nonSpace x"
    using set_remove_op [of tok t] Token.hyps(2) by blast
  note b = remove_op_boundary [OF tok Token.hyps(3)]
  from Token.IH show ?case
    unfolding remove_op_token [OF tok Token.hyps(3,2)] ws_words_append [OF u b]
      ws_words_token [OF Token.hyps(1,2,3)]
    by (simp add: cut_tokens_def)
qed

subsection \<open>The exclude pass\<close>

lemma replace_exclude_Nil [simp]: "replace_from re_exclude [] b [] = []"
  by simp

lemma replace_exclude_run:
  "\<forall>x \<in> set t. nonSpace x \<Longrightarrow>
   replace_from re_exclude [] False (t @ r) = t @ replace_from re_exclude [] False r"
  by (induction t) (simp_all add: re_exclude_nonSpace)

lemma replace_exclude_space:
  assumes "isSpace c"
  shows "ws_words (replace_from re_exclude [] b (c # s)) =
     ws_words (replace_from re_exclude [] True s)"
proof (cases s)
  case Nil
  with assms show ?thesis by (simp add: re_exclude_def)
next
  case (Cons d s')
  let ?run = "takeWhile nonSpace s'"
  show ?thesis
  proof (cases "d = CHR ''-'' \<and> ?run \<noteq> []")
    case True
    then have 1: "re_exclude b (c # d # s') = Some (2 + length ?run)"
      and 2: "re_exclude True (d # s') = Some (1 + length ?run)"
      using assms by (auto simp: re_exclude_def)
    show ?thesis
      unfolding Cons replace_from.simps 1 2 by simp
  next
    case False
    with assms have 1: "re_exclude b (c # d # s') = None"
      by (auto simp: re_exclude_def)
    from False have 2: "re_exclude True (d # s') = re_exclude False (d # s')"
      by (auto simp: re_exclude_def)
    from assms show ?thesis
      unfolding Cons replace_from.simps 1 2 by simp
  qed
qed

lemma replace_exclude_token:
  assumes t: "t \<noteq> []" "\<forall>x \<in> set t. nonSpace x" and r: "r = [] \<or> isSpace (hd r)"
  shows "replace_from re_exclude [] True (t @ r) =
     (if dash_token t then [] else t) @ replace_from re_exclude [] False r"
proof -
  from t obtain x t' where tx: "t = x # t'" by (cases t) auto
  with t have nx: "nonSpace x" and nt': "\<forall>x \<in> set t'. nonSpace x" by simp_all
  from takeWhile_token [OF nt' r] have tw: "takeWhile nonSpace (t' @ r) = t'"
    and dw: "dropWhile nonSpace (t' @ r) = r" by simp_all
  show ?thesis
  proof (cases "dash_token t")
    case True
    with tx have x: "x = CHR ''-''" and t': "t' \<noteq> []"
      by (auto simp: dash_token_def split: list.splits)
    from x t' tw have 1: "re_exclude True (x # t' @ r) = Some (1 + length t')"
      by (simp add: re_exclude_def)
    from True show ?thesis
      unfolding tx append_Cons replace_from.simps 1 by simp
  next
    case False
    with tx have "\<not> (x = CHR ''-'' \<and> t' \<noteq> [])"
      by (auto simp: dash_token_def split: list.splits)
    with nx tw have 1: "re_exclude True (x # t' @ r) = None"
      by (auto simp: re_exclude_def)
    from False show ?thesis
      unfolding tx append_Cons replace_from.simps 1
      by (simp add: replace_exclude_run [OF nt'])
  qed
qed

lemma replace_exclude_boundary:
  "r = [] \<or> isSpace (hd r) \<Longrightarrow>
   replace_from re_exclude [] b r = [] \<or> isSpace (hd (replace_from re_exclude [] b r))"
proof (induction "length r" arbitrary: r b rule: less_induct)
  case less
  show ?case
  proof (cases r)
    case Nil
    then show ?thesis by simp
  next
    case (Cons c s)
    with less.prems have c: "isSpace c" by simp
    show ?thesis
    proof (cases "re_exclude b (c # s)")
      case None
      with Cons c show ?thesis by simp
    next
      case (Some n)
      with c obtain s' where s: "s = CHR ''-'' # s'" and n: "n = 2 + length (takeWhile nonSpace s')"
        by (cases s) (auto simp: re_exclude_def split: if_splits)
      let ?r = "dropWhile nonSpace s'"
      have d: "drop (n - 1) s = ?r" using s n by simp
      have b: "?r = [] \<or> isSpace (hd ?r)" using hd_dropWhile [of nonSpace s'] by auto
      have "length ?r < length r" using Cons s length_dropWhile_le [of nonSpace s']
        by simp
      from less.hyps [OF this b] Some n d Cons show ?thesis by simp
    qed
  qed
qed

lemma ws_words_replace_exclude:
  "b \<or> s = [] \<or> isSpace (hd s) \<Longrightarrow>
   ws_words (replace_from re_exclude [] b s) = filter (\<lambda>t. \<not> dash_token t) (ws_words s)"
proof (induction s arbitrary: b rule: token_induct)
  case Nil
  then show ?case by simp
next
  case (Space c s)
  have "ws_words (replace_from re_exclude [] True s) = filter (\<lambda>t. \<not> dash_token t) (ws_words s)"
    by (rule Space.IH) simp
  with Space.hyps show ?case by (simp add: replace_exclude_space del: replace_from.simps)
next
  case (Token t r)
  from Token.hyps(1,2) have "nonSpace (hd (t @ r))" by (cases t) auto
  with Token.prems Token.hyps(1) have b: "b" by auto
  have ih: "ws_words (replace_from re_exclude [] False r) = filter (\<lambda>t. \<not> dash_token t) (ws_words r)"
    using Token.hyps(3) by (intro Token.IH) simp
  note bd = replace_exclude_boundary [OF Token.hyps(3), of False]
  show ?case
  proof (cases "dash_token t")
    case True
    with b ih show ?thesis
      by (simp add: replace_exclude_token [OF Token.hyps] ws_words_token [OF Token.hyps])
  next
    case False
    with b ih show ?thesis
      by (simp add: replace_exclude_token [OF Token.hyps] ws_words_token [OF Token.hyps]
          ws_words_token [OF Token.hyps(1,2) bd])
  qed
qed

subsection \<open>White-space normalisation\<close>

lemma collapse_flag:
  "replace_from re_spaces rep b s = replace_from re_spaces rep False s"
  by (cases s) simp_all

lemma collapse_Nil [simp]: "replace_from re_spaces rep b [] = []"
  by simp

lemma collapse_nonSpace:
  "nonSpace c \<Longrightarrow> replace_from re_spaces rep b (c # s) = c # replace_from re_spaces rep False s"
  by simp

lemma collapse_space:
  "isSpace c \<Longrightarrow>
   replace_from re_spaces rep b (c # s) = rep @ replace_from re_spaces rep False (dropWhile isSpace s)"
  by simp

lemma collapse_space_step:
  assumes "isSpace c"
  shows "replace_from re_spaces '' '' b (c # s) =
     (if s \<noteq> [] \<and> isSpace (hd s) then replace_from re_spaces '' '' False s
      else CHR '' '' # replace_from re_spaces '' '' False s)"
proof (cases s)
  case Nil
  with assms show ?thesis by simp
next
  case (Cons d s')
  with assms show ?thesis
    by (cases "isSpace d") (simp_all del: replace_from.simps add: collapse_space)
qed

lemma collapse_token:
  "\<forall>x \<in> set t. nonSpace x \<Longrightarrow>
   replace_from re_spaces rep b (t @ r) = t @ replace_from re_spaces rep False r"
proof (induction t arbitrary: b)
  case Nil
  then show ?case by (simp add: collapse_flag [of rep b])
next
  case (Cons x t)
  then show ?case by (simp del: replace_from.simps add: collapse_nonSpace)
qed

lemma rtrim_Nil [simp]: "rtrim [] = []"
  by (simp add: rtrim_def)

lemma rtrim_Cons: "rtrim (x # y) = (if rtrim y = [] \<and> isSpace x then [] else x # rtrim y)"
proof (cases "\<forall>z \<in> set y. isSpace z")
  case True
  then have "dropWhile isSpace (rev y @ [x]) = dropWhile isSpace [x]"
    by (intro dropWhile_append2) simp
  moreover from True have "rtrim y = []" by (simp add: rtrim_def)
  ultimately show ?thesis by (simp add: rtrim_def)
next
  case False
  then obtain z where z: "z \<in> set (rev y)" "nonSpace z" by auto
  then have "dropWhile isSpace (rev y @ [x]) = dropWhile isSpace (rev y) @ [x]"
    by (rule dropWhile_append1)
  moreover from False have "rtrim y \<noteq> []" by (simp add: rtrim_def)
  ultimately show ?thesis by (simp add: rtrim_def)
qed

lemma rtrim_token: "\<forall>x \<in> set t. nonSpace x \<Longrightarrow> rtrim (t @ y) = t @ rtrim y"
  by (induction t) (simp_all add: rtrim_Cons)

lemma join_spaced: "join '' '' (w # ws) = w @ spaced ws"
  by (induction ws arbitrary: w) (simp_all add: spaced_def)

lemma rtrim_collapse:
  "rtrim (replace_from re_spaces '' '' False x) =
     (case ws_words x of
        [] \<Rightarrow> []
      | w # ws \<Rightarrow> (if x \<noteq> [] \<and> isSpace (hd x) then '' '' else []) @ w @ spaced ws)"
proof (induction x rule: token_induct)
  case Nil
  then show ?case by simp
next
  case (Space c s)
  show ?case
  proof (cases "s \<noteq> [] \<and> isSpace (hd s)")
    case True
    with Space show ?thesis
      by (simp add: collapse_space_step del: replace_from.simps split: list.split)
  next
    case False
    have ne: "w \<noteq> []" if "ws_words s = w # ws" for w ws
      using ws_words_props [of w s] that by simp
    from False Space show ?thesis
      by (auto simp: collapse_space_step rtrim_Cons simp del: replace_from.simps
          split: list.split dest: ne)
  qed
next
  case (Token t r)
  have sp: "(if r \<noteq> [] \<and> isSpace (hd r) then '' '' else []) @ w @ spaced ws = spaced (w # ws)"
    if "ws_words r = w # ws" for w ws
  proof -
    from that have "r \<noteq> []" by auto
    with Token.hyps(3) show ?thesis by (simp add: spaced_def)
  qed
  from Token.hyps(1,2) have hd: "nonSpace (hd (t @ r))" by (cases t) auto
  have "rtrim (replace_from re_spaces '' '' False (t @ r)) = t @ spaced (ws_words r)"
    unfolding collapse_token [OF Token.hyps(2)] rtrim_token [OF Token.hyps(2)] Token.IH
  proof (cases "ws_words r")
    case Nil
    then show "t @ (case ws_words r of [] \<Rightarrow> []
        | w # ws \<Rightarrow> (if r \<noteq> [] \<and> isSpace (hd r) then '' '' else []) @ w @ spaced ws) =
      t @ spaced (ws_words r)"
      by (simp add: spaced_def)
  next
    case (Cons w ws)
    from sp [OF Cons] show "t @ (case ws_words r of [] \<Rightarrow> []
        | w # ws \<Rightarrow> (if r \<noteq> [] \<and> isSpace (hd r) then '' '' else []) @ w @ spaced ws) =
      t @ spaced (ws_words r)"
      by (simp add: Cons)
  qed
  with hd Token.hyps(1) show ?case
    by (simp add: ws_words_token [OF Token.hyps])
qed

lemma ltrim_collapse:
  "dropWhile isSpace (replace_from re_spaces '' '' b x) =
     replace_from re_spaces '' '' False (dropWhile isSpace x)"
proof (cases x)
  case Nil
  then show ?thesis by simp
next
  case (Cons c s)
  show ?thesis
  proof (cases "isSpace c")
    case False
    with Cons show ?thesis by simp
  next
    case True
    let ?d = "dropWhile isSpace s"
    have "dropWhile isSpace (replace_from re_spaces '' '' False ?d) =
        replace_from re_spaces '' '' False ?d"
    proof (cases ?d)
      case Nil
      show ?thesis unfolding Nil by simp
    next
      case (Cons d s')
      with hd_dropWhile [of isSpace s] have "nonSpace d" by auto
      with Cons show ?thesis by (simp add: collapse_nonSpace del: replace_from.simps)
    qed
    with True Cons show ?thesis by (simp add: collapse_space del: replace_from.simps)
  qed
qed

lemma trim_collapse: "trim (js_replace_g x re_spaces '' '') = join '' '' (ws_words x)"
proof -
  let ?x = "dropWhile isSpace x"
  have w: "ws_words ?x = ws_words x" by (simp add: ws_words_def words_acc_dropWhile)
  have h: "\<not> (?x \<noteq> [] \<and> isSpace (hd ?x))" using hd_dropWhile [of isSpace x] by auto
  have "trim (js_replace_g x re_spaces '' '') = rtrim (replace_from re_spaces '' '' False ?x)"
    by (simp add: trim_def rtrim_def js_replace_g_def ltrim_collapse del: replace_from.simps)
  also have "\<dots> = (case ws_words x of [] \<Rightarrow> [] | w # ws \<Rightarrow> w @ spaced ws)"
    unfolding rtrim_collapse w using h by (simp split: list.split)
  also have "\<dots> = join '' '' (ws_words x)"
    by (cases "ws_words x") (simp_all add: join_spaced)
  finally show ?thesis .
qed

subsection \<open>What a second pass finds\<close>

lemma no_op_all: "no_op tok u \<longleftrightarrow> (\<forall>k. \<not> occurs_at tok u k)"
  by (auto simp: no_op_def find_None_iff dest: occurs_at_less)

lemma occurs_at_append: "occurs_at tok u k \<Longrightarrow> occurs_at tok (u @ w) k"
proof -
  assume o: "occurs_at tok u k"
  then obtain c r where d: "drop (k + length tok) u = c # r" and c: "nonSpace c"
    by (cases "drop (k + length tok) u") (simp_all add: occurs_at_def)
  from d have len: "k + length tok < length u"
    by (cases "k + length tok < length u") simp_all
  from o have "take (length tok) (drop k u) = tok" by (simp add: occurs_at_def)
  with len d c show ?thesis by (simp add: occurs_at_def)
qed

lemma no_op_prefix: "no_op tok (u @ w) \<Longrightarrow> no_op tok u"
  unfolding no_op_all using occurs_at_append by blast

lemma remove_op_prefix:
  "\<forall>x \<in> set t. nonSpace x \<Longrightarrow> \<exists>w. t = remove_op tok t @ w"
proof (induction t)
  case Nil
  then show ?case by simp
next
  case (Cons x t)
  show ?case
  proof (cases "occurs_at tok (x # t) 0")
    case True
    have "\<forall>y \<in> set (drop (length tok) (x # t)). nonSpace y"
      using Cons.prems in_set_dropD [of _ "length tok" "x # t"] by blast
    then have "dropWhile nonSpace (drop (length tok) (x # t)) = []" by simp
    with remove_op_occurs [OF True] show ?thesis by simp
  next
    case False
    with Cons show ?thesis by (auto simp: remove_op_skip)
  qed
qed

lemma occurs_at_0_prefix:
  "occurs_at tok (x # u) 0 \<Longrightarrow> occurs_at tok (x # u @ w) 0"
  using occurs_at_append [of tok "x # u" 0 w] by simp

lemma remove_op_no_op:
  "\<forall>x \<in> set t. nonSpace x \<Longrightarrow> no_op tok (remove_op tok t)"
proof (induction t)
  case Nil
  then show ?case by (simp add: no_op_all occurs_at_def)
next
  case (Cons x t)
  show ?case
  proof (cases "occurs_at tok (x # t) 0")
    case True
    have "\<forall>y \<in> set (drop (length tok) (x # t)). nonSpace y"
      using Cons.prems in_set_dropD [of _ "length tok" "x # t"] by blast
    then have "dropWhile nonSpace (drop (length tok) (x # t)) = []" by simp
    with remove_op_occurs [OF True] show ?thesis by (simp add: no_op_all occurs_at_def)
  next
    case False
    from Cons.prems have t: "\<forall>x \<in> set t. nonSpace x" by simp
    from remove_op_prefix [OF t, of tok] obtain w where w: "t = remove_op tok t @ w" ..
    have "\<not> occurs_at tok (x # remove_op tok t) k" for k
    proof (cases k)
      case 0
      show ?thesis
      proof
        assume "occurs_at tok (x # remove_op tok t) k"
        with 0 have "occurs_at tok (x # remove_op tok t @ w) 0" by (simp add: occurs_at_0_prefix)
        with w False show False by simp
      qed
    next
      case (Suc j)
      with Cons.IH [OF t] show ?thesis by (simp add: no_op_all)
    qed
    with False show ?thesis by (simp add: remove_op_skip no_op_all)
  qed
qed

lemma remove_op_id: "no_op tok s \<Longrightarrow> remove_op tok s = s"
proof (induction s)
  case Nil
  then show ?case by simp
next
  case (Cons c s)
  from Cons.prems have "\<not> occurs_at tok (c # s) 0" by (simp add: no_op_all)
  moreover from Cons.prems have "no_op tok s"
    unfolding no_op_all using occurs_at_Suc [of tok c s] by blast
  ultimately show ?case using Cons.IH by (simp add: remove_op_skip)
qed

lemma cut_tokens_mem:
  "u \<in> set (cut_tokens tok ts) \<longleftrightarrow> u \<noteq> [] \<and> (\<exists>t \<in> set ts. u = remove_op tok t)"
  by (auto simp: cut_tokens_def)

lemma cut_inv_step: "cut_inv S ts \<Longrightarrow> cut_inv (insert tok S) (cut_tokens tok ts)"
proof -
  assume inv: "cut_inv S ts"
  have "u \<noteq> [] \<and> (\<forall>x \<in> set u. nonSpace x) \<and> (\<forall>tok' \<in> insert tok S. no_op tok' u)"
    if "u \<in> set (cut_tokens tok ts)" for u
  proof -
    from that obtain t where t: "t \<in> set ts" and u: "u = remove_op tok t" and ne: "u \<noteq> []"
      by (auto simp: cut_tokens_mem)
    from inv t have tok: "\<forall>x \<in> set t. nonSpace x" and S: "\<forall>tok' \<in> S. no_op tok' t"
      by (simp_all add: cut_inv_def)
    from remove_op_prefix [OF tok, of tok] u obtain w where w: "t = u @ w" by auto
    from tok set_remove_op [of tok t] u have "\<forall>x \<in> set u. nonSpace x" by blast
    moreover from remove_op_no_op [OF tok, of tok] u have "no_op tok u" by simp
    moreover from S w have "\<forall>tok' \<in> S. no_op tok' u" using no_op_prefix by blast
    ultimately show ?thesis using ne by simp
  qed
  then show ?thesis unfolding cut_inv_def by blast
qed

lemma cut_tokens_id: "cut_inv S ts \<Longrightarrow> tok \<in> S \<Longrightarrow> cut_tokens tok ts = ts"
proof -
  assume "cut_inv S ts" "tok \<in> S"
  then have "\<forall>t \<in> set ts. t \<noteq> [] \<and> remove_op tok t = t"
    by (auto simp: cut_inv_def remove_op_id)
  then show ?thesis
    unfolding cut_tokens_def by (induction ts) simp_all
qed

subsection \<open>\<open>stripOperators\<close> on the tokens of an input\<close>

lemma operator_tokens_nonSpace:
  "\<forall>x \<in> set ''after:''. nonSpace x" "\<forall>x \<in> set ''before:''. nonSpace x"
  "\<forall>x \<in> set ''intitle:''. nonSpace x" "\<forall>x \<in> set ''channel:''. nonSpace x"
  "\<forall>x \<in> set ''#''. nonSpace x"
  by (simp_all add: isSpace_def)

lemma strip_tokens:
  assumes "dquote \<notin> set s"
  shows "stripOperators s = join '' '' (strip_words (ws_words s))"
proof -
  let ?q1 = "remove_op ''after:'' s"
  let ?q2 = "remove_op ''before:'' ?q1"
  let ?q3 = "remove_op ''intitle:'' ?q2"
  let ?q5 = "remove_op ''channel:'' ?q3"
  let ?q6 = "remove_op ''#'' ?q5"
  let ?q7 = "js_replace_g ?q6 re_exclude []"
  from assms set_remove_op have "dquote \<notin> set ?q3" by blast
  then have q: "js_replace_g ?q3 re_quoted [] = ?q3"
    by (simp add: js_replace_g_def replace_quoted_none)
  have "stripOperators s = trim (js_replace_g ?q7 re_spaces '' '')"
    unfolding stripOperators_def Let_def remove_op_def [symmetric] q ..
  also have "\<dots> = join '' '' (ws_words ?q7)" by (rule trim_collapse)
  also have "ws_words ?q7 = filter (\<lambda>t. \<not> dash_token t) (ws_words ?q6)"
    unfolding js_replace_g_def by (rule ws_words_replace_exclude) simp
  also have "ws_words ?q6 = cut_tokens ''#'' (cut_tokens ''channel:'' (cut_tokens ''intitle:''
         (cut_tokens ''before:'' (cut_tokens ''after:'' (ws_words s)))))"
    unfolding ws_words_remove_op [OF operator_tokens_nonSpace(5)]
      ws_words_remove_op [OF operator_tokens_nonSpace(4)]
      ws_words_remove_op [OF operator_tokens_nonSpace(3)]
      ws_words_remove_op [OF operator_tokens_nonSpace(2)]
      ws_words_remove_op [OF operator_tokens_nonSpace(1)] ..
  finally show ?thesis by (simp only: strip_words_def)
qed

lemma cut_inv_ws_words: "cut_inv {} (ws_words s)"
  using ws_words_props by (auto simp: cut_inv_def)

lemma cut_inv_filter: "cut_inv S ts \<Longrightarrow> cut_inv S (filter P ts)"
  by (auto simp: cut_inv_def)

lemma strip_words_inv:
  assumes "cut_inv {} ts"
  shows "cut_inv {''#'', ''channel:'', ''intitle:'', ''before:'', ''after:''} (strip_words ts)"
  unfolding strip_words_def
  by (intro cut_inv_filter cut_inv_step assms)

lemma strip_words_no_dash: "\<forall>u \<in> set (strip_words ts). \<not> dash_token u"
  by (simp add: strip_words_def)

lemma filter_id_all: "\<forall>x \<in> set xs. P x \<Longrightarrow> filter P xs = xs"
  by (induction xs) simp_all

lemma strip_words_stable:
  assumes inv: "cut_inv {''#'', ''channel:'', ''intitle:'', ''before:'', ''after:''} us"
    and nd: "\<forall>u \<in> set us. \<not> dash_token u"
  shows "strip_words us = us"
proof -
  have c: "cut_tokens tok us = us"
    if "tok \<in> {''#'', ''channel:'', ''intitle:'', ''before:'', ''after:''}" for tok
    using inv that by (rule cut_tokens_id)
  have 1: "cut_tokens ''after:'' us = us" by (rule c) simp
  have 2: "cut_tokens ''before:'' us = us" by (rule c) simp
  have 3: "cut_tokens ''intitle:'' us = us" by (rule c) simp
  have 4: "cut_tokens ''channel:'' us = us" by (rule c) simp
  have 5: "cut_tokens ''#'' us = us" by (rule c) simp
  show ?thesis unfolding strip_words_def 1 2 3 4 5 using nd by (rule filter_id_all)
qed

lemma cut_inv_proper: "cut_inv S ts \<Longrightarrow> proper ts"
  by (simp add: cut_inv_def proper_def)

lemma set_trim: "set (trim s) \<subseteq> set s"
proof
  fix x assume "x \<in> set (trim s)"
  then have "x \<in> set (dropWhile isSpace (rev (dropWhile isSpace s)))" by (simp add: trim_def)
  then have "x \<in> set (rev (dropWhile isSpace s))" by (rule set_dropWhileD)
  then have "x \<in> set (dropWhile isSpace s)" by simp
  then show "x \<in> set s" by (rule set_dropWhileD)
qed

lemma set_js_replace_g: "set (js_replace_g s re rep) \<subseteq> set s \<union> set rep"
  unfolding js_replace_g_def by (rule set_replace_from)

lemma set_js_replace_g_Nil: "set (js_replace_g s re []) \<subseteq> set s"
  using set_js_replace_g [of s re "[]"] by simp

lemma set_stripOperators: "set (stripOperators s) \<subseteq> insert (CHR '' '') (set s)"
proof -
  let ?q7 = "js_replace_g (js_replace_g (js_replace_g (js_replace_g (js_replace_g
      (js_replace_g (js_replace_g s (re_operator ''after:'') []) (re_operator ''before:'') [])
      (re_operator ''intitle:'') []) re_quoted []) (re_operator ''channel:'') [])
      (re_operator ''#'') []) re_exclude []"
  have "set ?q7 \<subseteq> set s"
    by (intro subset_trans [OF set_js_replace_g_Nil]) simp
  moreover have "set (stripOperators s) \<subseteq> set ?q7 \<union> set '' ''"
    unfolding stripOperators_def Let_def
    by (rule subset_trans [OF set_trim set_js_replace_g])
  ultimately show ?thesis by auto
qed

lemma strip_idempotent_unquoted:
  assumes "dquote \<notin> set s"
  shows "stripOperators (stripOperators s) = stripOperators s"
proof -
  let ?us = "strip_words (ws_words s)"
  have s1: "stripOperators s = join '' '' ?us" using assms by (rule strip_tokens)
  have inv: "cut_inv {''#'', ''channel:'', ''intitle:'', ''before:'', ''after:''} ?us"
    using cut_inv_ws_words by (rule strip_words_inv)
  from assms set_stripOperators [of s] have "dquote \<notin> set (stripOperators s)" by auto
  then have "stripOperators (stripOperators s) = join '' '' (strip_words (ws_words (stripOperators s)))"
    by (rule strip_tokens)
  also have "ws_words (stripOperators s) = ?us"
    unfolding s1 using inv by (intro ws_words_join cut_inv_proper)
  also have "strip_words ?us = ?us"
    using inv strip_words_no_dash by (rule strip_words_stable)
  finally show ?thesis by (simp only: s1)
qed

subsection \<open>Passes that find nothing\<close>

lemma replace_no_match: "matches_from re b x = [] \<Longrightarrow> replace_from re rep b x = x"
proof (induction x arbitrary: b)
  case Nil
  then show ?case by (cases "re b []") simp_all
next
  case (Cons c cs)
  then show ?case by (cases "re b (c # cs)") simp_all
qed

lemma match_from_None: "match_from re b x = None \<longleftrightarrow> matches_from re b x = []"
proof (induction x arbitrary: b)
  case Nil
  then show ?case by (cases "re b []") simp_all
next
  case (Cons c cs)
  then show ?case by (cases "re b (c # cs)") simp_all
qed

lemma length_replace_le:
  assumes pos: "\<And>b s n. re b s = Some n \<Longrightarrow> 0 < n \<and> n \<le> length s"
    and rep: "length rep \<le> 1"
  shows "length (replace_from re rep b x) \<le> length x"
proof (induction "length x" arbitrary: x b rule: less_induct)
  case less
  show ?case
  proof (cases x)
    case Nil
    have "re b [] = None"
    proof (cases "re b []")
      case (Some n)
      from pos [OF this] have False by auto
      then show ?thesis ..
    qed simp
    with Nil show ?thesis by simp
  next
    case (Cons c cs)
    show ?thesis
    proof (cases "re b (c # cs)")
      case None
      have "length (replace_from re rep False cs) \<le> length cs"
        using Cons by (intro less) simp
      with None Cons show ?thesis by simp
    next
      case (Some n)
      from pos [OF Some] have n: "0 < n" by simp
      have "length (replace_from re rep False (drop (n - 1) cs)) \<le> length (drop (n - 1) cs)"
        using Cons by (intro less) simp
      with Some n Cons rep show ?thesis by simp
    qed
  qed
qed

lemma replace_keeps_length:
  assumes pos: "\<And>b s n. re b s = Some n \<Longrightarrow> 0 < n \<and> n \<le> length s"
  shows "length (replace_from re [] b x) = length x \<Longrightarrow> matches_from re b x = []"
proof (induction x arbitrary: b)
  case Nil
  have "re b [] = None"
  proof (cases "re b []")
    case (Some n)
    from pos [OF this] have False by auto
    then show ?thesis ..
  qed simp
  then show ?case by simp
next
  case (Cons c cs)
  show ?case
  proof (cases "re b (c # cs)")
    case None
    with Cons show ?thesis by simp
  next
    case (Some n)
    from pos [OF Some] have n: "0 < n" by simp
    have "length (replace_from re [] False (drop (n - 1) cs)) \<le> length (drop (n - 1) cs)"
      using pos by (intro length_replace_le) simp_all
    with Some n Cons.prems show ?thesis by simp
  qed
qed

lemma pos_operator: "re_operator tok b s = Some n \<Longrightarrow> 0 < n \<and> n \<le> length s"
proof -
  assume a: "re_operator tok b s = Some n"
  let ?run = "takeWhile nonSpace (drop (length tok) s)"
  from a have t: "take (length tok) s = tok" and r: "?run \<noteq> []" and n: "n = length tok + length ?run"
    by (auto simp: re_operator_def Let_def split: if_splits)
  from arg_cong [OF t, of length] have "length tok \<le> length s"
    by (simp add: min_def split: if_splits)
  moreover have "length ?run \<le> length s - length tok"
    using length_takeWhile_le [of nonSpace "drop (length tok) s"] by simp
  ultimately show ?thesis using r n by simp
qed

lemma pos_quoted: "re_quoted b s = Some n \<Longrightarrow> 0 < n \<and> n \<le> length s"
proof -
  assume a: "re_quoted b s = Some n"
  then obtain c r where s: "s = c # r" by (cases s) (simp_all add: re_quoted_def)
  let ?inner = "takeWhile notQuote r"
  from a s have n: "n = length ?inner + 2" and d: "take 1 (drop (length ?inner) r) = [dquote]"
    by (auto simp: re_quoted_def Let_def split: if_splits)
  have "length ?inner + length (dropWhile notQuote r) = length r"
    by (metis length_append takeWhile_dropWhile_id)
  moreover have "dropWhile notQuote r \<noteq> []"
  proof
    assume e: "dropWhile notQuote r = []"
    from d show False unfolding drop_length_takeWhile e by simp
  qed
  ultimately have "length ?inner < length r" by (cases "dropWhile notQuote r") simp_all
  with n s show ?thesis by simp
qed

lemma pos_exclude: "re_exclude b s = Some n \<Longrightarrow> 0 < n \<and> n \<le> length s"
proof -
  assume a: "re_exclude b s = Some n"
  then obtain c r where s: "s = c # r" by (cases s) (simp_all add: re_exclude_def)
  have 1: "length (takeWhile nonSpace r) \<le> length r" by (rule length_takeWhile_le)
  have 2: "take 1 r = ''-'' \<Longrightarrow> Suc (length (takeWhile nonSpace (drop 1 r))) \<le> length r"
    using length_takeWhile_le [of nonSpace "drop 1 r"] by (cases r) simp_all
  from a s 1 2 show ?thesis
    by (auto simp: re_exclude_def split: if_splits)
qed

lemma pos_spaces: "re_spaces b s = Some n \<Longrightarrow> 0 < n \<and> n \<le> length s"
  using length_takeWhile_le [of isSpace s]
  by (auto simp: re_spaces_def split: if_splits)

lemma length_trim_le: "length (trim s) \<le> length s"
proof -
  have "length (trim s) \<le> length (dropWhile isSpace s)"
    using length_dropWhile_le [of isSpace "rev (dropWhile isSpace s)"] by (simp add: trim_def)
  also have "\<dots> \<le> length s" by (rule length_dropWhile_le)
  finally show ?thesis .
qed

lemma no_match_operator: "matches_from (re_operator tok) b t = [] \<Longrightarrow> no_op tok t"
  using match_from_None [of "re_operator tok" b t]
  by (simp add: match_from_operator no_op_def)

lemma no_match_quoted: "matches_from re_quoted True t = [] \<Longrightarrow> quoted_spans t = []"
  using quoted_matches [of True t] by (simp add: quoted_spans_def)

lemma quoted_no_match: "quoted_spans t = [] \<Longrightarrow> matches_from re_quoted True t = []"
  using quoted_matches [of True t] by (simp add: quoted_spans_def)

lemma no_match_exclude: "matches_from re_exclude True t = [] \<Longrightarrow> dash_words t = []"
  using exclude_words [of True t] by simp

lemma exclude_no_match: "dash_words t = [] \<Longrightarrow> matches_from re_exclude True t = []"
  using exclude_words [of True t] by simp

lemma strip_normal: "\<exists>ws. proper ws \<and> stripOperators s = join '' '' ws"
proof -
  have "\<exists>x. stripOperators s = trim (js_replace_g x re_spaces '' '')"
    unfolding stripOperators_def Let_def by blast
  then obtain x where "stripOperators s = join '' '' (ws_words x)"
    unfolding trim_collapse by blast
  with proper_ws_words [of x] show ?thesis by blast
qed

lemma strip_clean:
  assumes c: "clean_query t" and n: "proper ws" "t = join '' '' ws"
  shows "stripOperators t = t"
proof -
  from c have o: "remove_op ''after:'' t = t" "remove_op ''before:'' t = t"
    "remove_op ''intitle:'' t = t" "remove_op ''channel:'' t = t" "remove_op ''#'' t = t"
    by (simp_all add: clean_query_def remove_op_id)
  from c have q: "js_replace_g t re_quoted [] = t"
    by (simp add: clean_query_def js_replace_g_def replace_no_match quoted_no_match)
  from c have e: "js_replace_g t re_exclude [] = t"
    by (simp add: clean_query_def js_replace_g_def replace_no_match exclude_no_match)
  have "stripOperators t = trim (js_replace_g t re_spaces '' '')"
    unfolding stripOperators_def Let_def remove_op_def [symmetric] o q e ..
  also have "\<dots> = join '' '' (ws_words t)" by (rule trim_collapse)
  also have "\<dots> = t" using n by (simp add: ws_words_join)
  finally show ?thesis .
qed

lemma strip_fixed_clean:
  assumes f: "stripOperators t = t"
  shows "clean_query t"
proof -
  define q1 where "q1 = js_replace_g t (re_operator ''after:'') []"
  define q2 where "q2 = js_replace_g q1 (re_operator ''before:'') []"
  define q3 where "q3 = js_replace_g q2 (re_operator ''intitle:'') []"
  define q4 where "q4 = js_replace_g q3 re_quoted []"
  define q5 where "q5 = js_replace_g q4 (re_operator ''channel:'') []"
  define q6 where "q6 = js_replace_g q5 (re_operator ''#'') []"
  define q7 where "q7 = js_replace_g q6 re_exclude []"
  define q8 where "q8 = js_replace_g q7 re_spaces '' ''"
  have s: "stripOperators t = trim q8"
    by (simp add: stripOperators_def Let_def q1_def q2_def q3_def q4_def q5_def q6_def q7_def q8_def)
  have le: "length q1 \<le> length t" "length q2 \<le> length q1" "length q3 \<le> length q2"
    "length q4 \<le> length q3" "length q5 \<le> length q4" "length q6 \<le> length q5"
    "length q7 \<le> length q6" "length q8 \<le> length q7" "length (trim q8) \<le> length q8"
    unfolding q1_def q2_def q3_def q4_def q5_def q6_def q7_def q8_def js_replace_g_def
    by (intro length_replace_le length_trim_le pos_operator pos_quoted pos_exclude pos_spaces; simp)+
  from f s have "length (trim q8) = length t" by simp
  with le have eq: "length q1 = length t" "length q2 = length q1" "length q3 = length q2"
    "length q4 = length q3" "length q5 = length q4" "length q6 = length q5"
    "length q7 = length q6"
    by linarith+
  have m1: "matches_from (re_operator ''after:'') True t = []"
    using eq(1) unfolding q1_def js_replace_g_def
    by (intro replace_keeps_length pos_operator)
  then have t1: "q1 = t" by (simp add: q1_def js_replace_g_def replace_no_match)
  have m2: "matches_from (re_operator ''before:'') True t = []"
    using eq(2) unfolding q2_def js_replace_g_def t1
    by (intro replace_keeps_length pos_operator)
  then have t2: "q2 = t" by (simp add: q2_def t1 js_replace_g_def replace_no_match)
  have m3: "matches_from (re_operator ''intitle:'') True t = []"
    using eq(3) unfolding q3_def js_replace_g_def t2
    by (intro replace_keeps_length pos_operator)
  then have t3: "q3 = t" by (simp add: q3_def t2 js_replace_g_def replace_no_match)
  have m4: "matches_from re_quoted True t = []"
    using eq(4) unfolding q4_def js_replace_g_def t3
    by (intro replace_keeps_length pos_quoted)
  then have t4: "q4 = t" by (simp add: q4_def t3 js_replace_g_def replace_no_match)
  have m5: "matches_from (re_operator ''channel:'') True t = []"
    using eq(5) unfolding q5_def js_replace_g_def t4
    by (intro replace_keeps_length pos_operator)
  then have t5: "q5 = t" by (simp add: q5_def t4 js_replace_g_def replace_no_match)
  have m6: "matches_from (re_operator ''#'') True t = []"
    using eq(6) unfolding q6_def js_replace_g_def t5
    by (intro replace_keeps_length pos_operator)
  then have t6: "q6 = t" by (simp add: q6_def t5 js_replace_g_def replace_no_match)
  have m7: "matches_from re_exclude True t = []"
    using eq(7) unfolding q7_def js_replace_g_def t6
    by (intro replace_keeps_length pos_exclude)
  from m1 m2 m3 m4 m5 m6 m7 show ?thesis
    unfolding clean_query_def
    by (intro conjI no_match_operator no_match_quoted no_match_exclude)
qed

lemma strip_twice_iff:
  "stripOperators (stripOperators s) = stripOperators s \<longleftrightarrow> clean_query (stripOperators s)"
proof
  assume "stripOperators (stripOperators s) = stripOperators s"
  then show "clean_query (stripOperators s)" by (rule strip_fixed_clean)
next
  assume c: "clean_query (stripOperators s)"
  from strip_normal [of s] obtain ws where "proper ws" "stripOperators s = join '' '' ws" by blast
  with c show "stripOperators (stripOperators s) = stripOperators s" by (rule strip_clean)
qed

text \<open>
  Claim C2, amended. A second call of \<open>stripOperators\<close> changes nothing exactly when
  the result of the first call holds no span that an operator rule matches: no
  \<open>after:\<close>, \<open>before:\<close>, \<open>intitle:\<close>, \<open>channel:\<close> or \<open>#\<close> followed by a character that is not
  white space, no pair of double quotes with at least one character between them, and
  no dash at the start or after white space that is followed by a character that is not
  white space. This is so, in particular, for every input without a double quote.
\<close>

theorem stripOperators_idempotent:
  "(stripOperators (stripOperators s) = stripOperators s \<longleftrightarrow> clean_query (stripOperators s)) \<and>
   (dquote \<notin> set s \<longrightarrow> stripOperators (stripOperators s) = stripOperators s)"
  using strip_twice_iff [of s] strip_idempotent_unquoted [of s] by simp

theorem stripOperators_idempotent_witness:
  "stripOperators (''react hooks after:2024-01-01 before:2024-12-31 intitle:tutorial '' @ [dquote] @
     ''best practices'' @ [dquote] @ '' -beginner channel:fireship #webdev'') = ''react hooks'' \<and>
   clean_query ''react hooks'' \<and>
   stripOperators ''react hooks'' = ''react hooks'' \<and>
   stripOperators (''python '' @ [dquote] @ ''exact match'' @ [dquote]) = ''python'' \<and>
   stripOperators ''python'' = ''python'' \<and>
   stripOperators (''af'' @ [dquote] @ ''x'' @ [dquote] @ ''ter:foo'') = ''after:foo'' \<and>
   \<not> clean_query ''after:foo'' \<and>
   stripOperators ''after:foo'' \<noteq> ''after:foo'' \<and>
   dquote \<notin> set ''react  -a hooks after:2024 x#y - channel:c'' \<and>
   stripOperators ''react  -a hooks after:2024 x#y - channel:c'' = ''react hooks x -'' \<and>
   stripOperators ''react hooks x -'' = ''react hooks x -''"
proof -
  let ?a = "''react hooks after:2024-01-01 before:2024-12-31 intitle:tutorial '' @ [dquote] @
     ''best practices'' @ [dquote] @ '' -beginner channel:fireship #webdev''"
  let ?b = "''python '' @ [dquote] @ ''exact match'' @ [dquote]"
  let ?c = "''af'' @ [dquote] @ ''x'' @ [dquote] @ ''ter:foo''"
  let ?d = "''react  -a hooks after:2024 x#y - channel:c''"
  have a: "stripOperators ?a = ''react hooks''" by code_simp
  have ca: "clean_query ''react hooks''" by code_simp
  have b: "stripOperators ?b = ''python''" by code_simp
  have cb: "clean_query ''python''" by code_simp
  have c: "stripOperators ?c = ''after:foo''" by code_simp
  have cc: "\<not> clean_query ''after:foo''" by code_simp
  have d: "stripOperators ?d = ''react hooks x -''" by code_simp
  have dq: "dquote \<notin> set ?d" by simp
  from stripOperators_idempotent [of ?a, THEN conjunct1] ca have 1: "stripOperators ''react hooks'' = ''react hooks''"
    unfolding a by simp
  from stripOperators_idempotent [of ?b, THEN conjunct1] cb have 2: "stripOperators ''python'' = ''python''"
    unfolding b by simp
  from stripOperators_idempotent [of ?c, THEN conjunct1] cc have 3: "stripOperators ''after:foo'' \<noteq> ''after:foo''"
    unfolding c by simp
  from stripOperators_idempotent [of ?d, THEN conjunct2] dq have 4: "stripOperators ''react hooks x -'' = ''react hooks x -''"
    unfolding d by simp
  from a ca 1 b 2 c cc 3 dq d 4 show ?thesis by (intro conjI)
qed

text \<open>
  The claim as stated fails: removing a quoted span from inside a token can leave an
  operator that the earlier pass did not see, and a second call removes it.
\<close>

theorem stripOperators_idempotent_counterexample:
  "stripOperators (stripOperators (''af'' @ [dquote] @ ''x'' @ [dquote] @ ''ter:foo'')) \<noteq>
     stripOperators (''af'' @ [dquote] @ ''x'' @ [dquote] @ ''ter:foo'')"
proof -
  have 1: "stripOperators (''af'' @ [dquote] @ ''x'' @ [dquote] @ ''ter:foo'') = ''after:foo''"
    by code_simp
  have 2: "stripOperators ''after:foo'' = []" by code_simp
  show ?thesis unfolding 1 2 by simp
qed

end
